theory Spec2Isabelle
  imports Complex_Main "HOL-Library.Code_Target_Nat"
begin

section \<open>JavaScript strings\<close>

text \<open>
  A JavaScript string is a sequence of UTF-16 code units. The sanitizer distinguishes code
  units beyond Latin-1 (the line separators U+2028 and U+2029 end a line for \<open>^\<close> and
  \<open>$\<close>, and \<open>trim\<close> strips them), so a code unit is a natural number and a string
  a list of them. \<open>js\<close> reads an ASCII literal.
\<close>

type_synonym jsstring = "nat list"

definition js :: "string \<Rightarrow> jsstring" where
  "js s = map of_char s"

text \<open>
  \<open>is_space\<close> is the class \<open>\s\<close> of a regular expression, which is also what
  \<open>String.prototype.trim\<close> strips: WhiteSpace and LineTerminator of ECMAScript.
\<close>

definition is_space :: "nat \<Rightarrow> bool" where
  "is_space c \<longleftrightarrow>
     c = 9 \<or> c = 10 \<or> c = 11 \<or> c = 12 \<or> c = 13 \<or> c = 32 \<or> c = 160 \<or> c = 5760 \<or>
     (8192 \<le> c \<and> c \<le> 8202) \<or> c = 8232 \<or> c = 8233 \<or> c = 8239 \<or> c = 8287 \<or>
     c = 12288 \<or> c = 65279"

text \<open>With the flag \<open>m\<close>, \<open>^\<close> holds after and \<open>$\<close> before a LineTerminator.\<close>

definition is_line_terminator :: "nat \<Rightarrow> bool" where
  "is_line_terminator c \<longleftrightarrow> c = 10 \<or> c = 13 \<or> c = 8232 \<or> c = 8233"

definition is_digit :: "nat \<Rightarrow> bool" where
  "is_digit c \<longleftrightarrow> 48 \<le> c \<and> c \<le> 57"

definition is_alpha :: "nat \<Rightarrow> bool" where
  "is_alpha c \<longleftrightarrow> (65 \<le> c \<and> c \<le> 90) \<or> (97 \<le> c \<and> c \<le> 122)"

definition is_alnum :: "nat \<Rightarrow> bool" where
  "is_alnum c \<longleftrightarrow> is_alpha c \<or> is_digit c"

text \<open>\<open>is_word\<close> is \<open>\w\<close>, that is \<open>[a-zA-Z0-9_]\<close>.\<close>

definition is_word :: "nat \<Rightarrow> bool" where
  "is_word c \<longleftrightarrow> is_alnum c \<or> c = 95"

definition trimStart :: "jsstring \<Rightarrow> jsstring" where
  "trimStart s = dropWhile is_space s"

definition trimEnd :: "jsstring \<Rightarrow> jsstring" where
  "trimEnd s = rev (dropWhile is_space (rev s))"

definition trim :: "jsstring \<Rightarrow> jsstring" where
  "trim s = trimEnd (trimStart s)"

text \<open>\<open>s.includes(p)\<close>, \<open>s.indexOf(c)\<close> and \<open>s.lastIndexOf(c)\<close> (\<open>-1\<close> when absent).\<close>

fun includes_str :: "jsstring \<Rightarrow> jsstring \<Rightarrow> bool" where
  "includes_str p [] = (p = [])"
| "includes_str p (c # cs) = (take (length p) (c # cs) = p \<or> includes_str p cs)"

definition indexOf :: "nat \<Rightarrow> jsstring \<Rightarrow> int" where
  "indexOf c s = (if c \<in> set s then int (length (takeWhile (\<lambda>x. x \<noteq> c) s)) else - 1)"

definition lastIndexOf :: "nat \<Rightarrow> jsstring \<Rightarrow> int" where
  "lastIndexOf c s =
     (if c \<in> set s then int (length s) - 1 - int (length (takeWhile (\<lambda>x. x \<noteq> c) (rev s)))
      else - 1)"

text \<open>\<open>s.split('\n')\<close> and \<open>lines.join('\n')\<close>; the empty string splits into one empty line.\<close>

fun split_lines :: "jsstring \<Rightarrow> jsstring list" where
  "split_lines [] = [[]]"
| "split_lines (c # cs) =
     (if c = 10 then [] # split_lines cs
      else (case split_lines cs of [] \<Rightarrow> [[c]] | l # ls \<Rightarrow> (c # l) # ls))"

fun join_lines :: "jsstring list \<Rightarrow> jsstring" where
  "join_lines [] = []"
| "join_lines [l] = l"
| "join_lines (l # ls) = l @ 10 # join_lines ls"

section \<open>The sanitization stage of \<open>sanitizeAndParseJson\<close>\<close>

subsection \<open>Unwrapping a fence that spans the whole string\<close>

text \<open>
  \<open>fenceRegex = /^```(\w*)?\s*\n?(.*?)\n?\s*```$/s\<close> has no flag \<open>m\<close>: it matches the whole
  string or nothing. It matches exactly the strings of length at least six that start and
  end with three backticks. The greedy \<open>\w*\<close> and \<open>\s*\<close> take the longest runs (they stop
  at a backtick at the latest), \<open>\n?\<close> then faces a character that is not white space, and
  the lazy \<open>(.*?)\<close> stops at the first position from which only white space and the closing
  backticks follow. \<open>fence_group2\<close> is \<open>match[2]\<close>, \<open>None\<close> when the match fails.
\<close>

definition fence :: jsstring where
  "fence = [96, 96, 96]"

definition fence_group2 :: "jsstring \<Rightarrow> jsstring option" where
  "fence_group2 s =
     (if 6 \<le> length s \<and> take 3 s = fence \<and> drop (length s - 3) s = fence
      then Some (trimEnd (dropWhile is_space (dropWhile is_word
                   (take (length s - 6) (drop 3 s)))))
      else None)"

text \<open>\<open>if (match && match[2]) saneJsonString = match[2].trim()\<close>: an empty group is falsy.\<close>

definition unwrap_fence :: "jsstring \<Rightarrow> jsstring" where
  "unwrap_fence s =
     (case fence_group2 s of
        None \<Rightarrow> s
      | Some g \<Rightarrow> if g \<noteq> [] then trim g else s)"

subsection \<open>Regex 1: placeholder lines\<close>

text \<open>
  \<open>/^\s*([a-zA-Z_][a-zA-Z0-9_]*):\s*(\[\]|\{\})\s*,?\s*$/gm\<close>, replaced by the empty string.

  \<open>last_line_end w\<close> is the index of the last line terminator of \<open>w\<close>.
  \<open>spaces_to_eol t\<close> is the length that \<open>\s*$\<close> matches at the start of \<open>t\<close>: the greedy
  \<open>\s*\<close> takes the whole run of white space, where \<open>$\<close> holds only at the end of the
  string; backtracking gives the run back one character at a time, so the match ends before
  the last line terminator of the run. \<open>placeholder_tail\<close> is \<open>\s*,?\s*$\<close>: the comma is
  tried first, after the whole first run.
\<close>

fun last_line_end :: "jsstring \<Rightarrow> nat option" where
  "last_line_end [] = None"
| "last_line_end (c # cs) =
     (case last_line_end cs of
        Some k \<Rightarrow> Some (Suc k)
      | None \<Rightarrow> if is_line_terminator c then Some 0 else None)"

definition spaces_to_eol :: "jsstring \<Rightarrow> nat option" where
  "spaces_to_eol t =
     (if dropWhile is_space t = [] then Some (length t)
      else last_line_end (takeWhile is_space t))"

definition placeholder_tail :: "jsstring \<Rightarrow> nat option" where
  "placeholder_tail t =
     (case dropWhile is_space t of
        [] \<Rightarrow> spaces_to_eol t
      | c # r \<Rightarrow>
          if c = 44 then
            (case spaces_to_eol r of
               Some k \<Rightarrow> Some (length (takeWhile is_space t) + 1 + k)
             | None \<Rightarrow> spaces_to_eol t)
          else spaces_to_eol t)"

text \<open>
  \<open>match_placeholder s\<close> is the length of the match of Regex 1 that starts at the start of
  \<open>s\<close> (where the caller has checked \<open>^\<close>). Every greedy run before the tail is followed by
  a character outside its class, so none of them can give anything back.
\<close>

definition match_placeholder :: "jsstring \<Rightarrow> nat option" where
  "match_placeholder s =
     (case dropWhile is_space s of
        [] \<Rightarrow> None
      | c # r \<Rightarrow>
          if \<not> (is_alpha c \<or> c = 95) then None
          else
            (case dropWhile is_word r of
               [] \<Rightarrow> None
             | d # r3 \<Rightarrow>
                 if d \<noteq> 58 then None
                 else
                   (case dropWhile is_space r3 of
                      a # b # r5 \<Rightarrow>
                        if (a = 91 \<and> b = 93) \<or> (a = 123 \<and> b = 125) then
                          (case placeholder_tail r5 of
                             Some k \<Rightarrow> Some (length s - length r5 + k)
                           | None \<Rightarrow> None)
                        else None
                    | _ \<Rightarrow> None)))"

text \<open>
  \<open>String.prototype.replace\<close> with a global regular expression: the leftmost match is
  replaced and the search goes on after it. \<open>bol\<close> says whether \<open>^\<close> holds at the current
  position, that is whether the previous code unit of the original string ends a line.
\<close>

fun replace_placeholders :: "bool \<Rightarrow> jsstring \<Rightarrow> jsstring" where
  "replace_placeholders bol [] = []"
| "replace_placeholders bol (c # cs) =
     (case (if bol then match_placeholder (c # cs) else None) of
        Some (Suc k) \<Rightarrow>
          replace_placeholders (is_line_terminator ((c # cs) ! k)) (drop k cs)
      | _ \<Rightarrow> c # replace_placeholders (is_line_terminator c) cs)"

subsection \<open>Regex 2: unquoted text in front of a quoted string\<close>

text \<open>
  \<open>/^(\s*)([a-zA-Z][a-zA-Z0-9\s_.-]*[a-zA-Z0-9]|[a-zA-Z])\s+(")/gm\<close>, replaced by
  \<open>$1$3\<close>. After the leading white space and a letter, everything up to the quote lies
  in the class \<open>[a-zA-Z0-9\s_.-]\<close>, which has no quote: the match ends at the first
  code unit outside the class, which must be the quote. The run before it must end in white
  space (\<open>\s+\<close>), and what precedes that white space is empty (second alternative) or ends
  in a letter or digit (first alternative). \<open>match_junk_prefix s\<close> is the length of the
  leading white space and the index of the quote.
\<close>

definition is_junk_char :: "nat \<Rightarrow> bool" where
  "is_junk_char c \<longleftrightarrow> is_alnum c \<or> is_space c \<or> c = 95 \<or> c = 46 \<or> c = 45"

definition match_junk_prefix :: "jsstring \<Rightarrow> (nat \<times> nat) option" where
  "match_junk_prefix s =
     (case dropWhile is_space s of
        [] \<Rightarrow> None
      | c # r \<Rightarrow>
          if \<not> is_alpha c then None
          else
            (let body = takeWhile is_junk_char r in
             case dropWhile is_junk_char r of
               [] \<Rightarrow> None
             | q # _ \<Rightarrow>
                 if q = 34 \<and> body \<noteq> [] \<and> is_space (last body) \<and>
                    (trimEnd body = [] \<or> is_alnum (last (trimEnd body)))
                 then Some (length (takeWhile is_space s),
                            length (takeWhile is_space s) + 1 + length body)
                 else None))"

fun replace_junk_prefixes :: "bool \<Rightarrow> jsstring \<Rightarrow> jsstring" where
  "replace_junk_prefixes bol [] = []"
| "replace_junk_prefixes bol (c # cs) =
     (case (if bol then match_junk_prefix (c # cs) else None) of
        Some (j, k) \<Rightarrow> take j (c # cs) @ 34 # replace_junk_prefixes False (drop k cs)
      | None \<Rightarrow> c # replace_junk_prefixes (is_line_terminator c) cs)"

subsection \<open>The line filter\<close>

text \<open>
  \<open>/^(true|false|-?\d+(\.\d+)?([eE][+-]?\d+)?)$/\<close> has no flag \<open>m\<close>: the whole trimmed
  line is \<open>true\<close>, \<open>false\<close> or a number of this shape.
\<close>

definition is_number_text :: "jsstring \<Rightarrow> bool" where
  "is_number_text t =
     (let t1 = (case t of [] \<Rightarrow> t | c # r \<Rightarrow> if c = 45 then r else t);
          r1 = dropWhile is_digit t1;
          r2 = (case r1 of
                  [] \<Rightarrow> r1
                | c # r \<Rightarrow>
                    if c = 46 \<and> takeWhile is_digit r \<noteq> [] then dropWhile is_digit r else r1)
      in takeWhile is_digit t1 \<noteq> [] \<and>
         (case r2 of
            [] \<Rightarrow> True
          | e # r \<Rightarrow>
              (e = 101 \<or> e = 69) \<and>
              (let r3 = (case r of [] \<Rightarrow> r | g # r' \<Rightarrow> if g = 43 \<or> g = 45 then r' else r)
               in r3 \<noteq> [] \<and> list_all is_digit r3)))"

definition is_bool_or_number :: "jsstring \<Rightarrow> bool" where
  "is_bool_or_number t \<longleftrightarrow> t = js ''true'' \<or> t = js ''false'' \<or> is_number_text t"

text \<open>The predicate handed to \<open>filter\<close>, in the order of the source's tests.\<close>

definition keep_line :: "jsstring \<Rightarrow> bool" where
  "keep_line line =
     (let t = trim line in
      if t = [] then True
      else if hd t \<in> {123, 125, 91, 93, 44, 34} then True
      else if last t \<in> {123, 125, 91, 93, 44} then True
      else if includes_str [34, 58, 34] t \<and> indexOf 34 t < lastIndexOf 34 t then True
      else if list_ex is_alpha t then is_bool_or_number t
      else True)"

subsection \<open>Collapsing blank lines\<close>

text \<open>
  \<open>/\n\s*\n/g\<close>, replaced by one line feed. \<open>last_newline w\<close> is the index of the last line
  feed of \<open>w\<close>: the greedy \<open>\s*\<close> takes the whole run of white space after the first line
  feed and gives it back until a line feed follows.
\<close>

fun last_newline :: "jsstring \<Rightarrow> nat option" where
  "last_newline [] = None"
| "last_newline (c # cs) =
     (case last_newline cs of
        Some k \<Rightarrow> Some (Suc k)
      | None \<Rightarrow> if c = 10 then Some 0 else None)"

fun collapse_blank_lines :: "jsstring \<Rightarrow> jsstring" where
  "collapse_blank_lines [] = []"
| "collapse_blank_lines (c # cs) =
     (if c = 10 then
        (case last_newline (takeWhile is_space cs) of
           Some k \<Rightarrow> 10 # collapse_blank_lines (drop (Suc k) cs)
         | None \<Rightarrow> 10 # collapse_blank_lines cs)
      else c # collapse_blank_lines cs)"

subsection \<open>The whole stage (source lines 15 to 51)\<close>

text \<open>
  \<open>sanitize_lines\<close> is what happens to the text once a fence is unwrapped (source lines 22
  to 51); \<open>sanitize\<close> is the whole stage, whose result goes to the first \<open>JSON.parse\<close>.
\<close>

definition sanitize_lines :: "jsstring \<Rightarrow> jsstring" where
  "sanitize_lines s0 =
     (let s1 = replace_placeholders True s0;
          s2 = replace_junk_prefixes True s1;
          s3 = join_lines (filter keep_line (split_lines s2))
      in trim (collapse_blank_lines s3))"

definition sanitize :: "jsstring \<Rightarrow> jsstring" where
  "sanitize jsonString = sanitize_lines (unwrap_fence (trim jsonString))"

text \<open>
  A fenced code block: the opening fence with its language tag, a line feed, the content, a
  line feed and the closing fence.
\<close>

definition fenced_block :: "jsstring \<Rightarrow> jsstring \<Rightarrow> jsstring" where
  "fenced_block tag content = fence @ tag @ 10 # content @ 10 # fence"

section \<open>\<open>JSON.parse\<close>\<close>

text \<open>
  The value that \<open>JSON.parse\<close> builds. A number is the exact value of its literal (the
  double that JavaScript stores is a function of it); an object keeps its members in the order
  of their first occurrence, a later duplicate of a key replacing the value (\<open>obj_put\<close>).
\<close>

datatype json =
    JNull
  | JBool bool
  | JNum rat
  | JStr jsstring
  | JArr "json list"
  | JObj "(jsstring \<times> json) list"

fun obj_put :: "jsstring \<Rightarrow> json \<Rightarrow> (jsstring \<times> json) list \<Rightarrow> (jsstring \<times> json) list" where
  "obj_put k v [] = [(k, v)]"
| "obj_put k v ((k', v') # kvs) =
     (if k' = k then (k, v) # kvs else (k', v') # obj_put k v kvs)"

datatype parse_error = SyntaxError

text \<open>
  \<open>JSON.parse\<close> is a built-in of the language, not code of the repository; it is modelled
  as the grammar of ECMA-404 that ECMAScript prescribes, read one code unit at a time by a
  pushdown recognizer: \<open>mode\<close> is what the reader is in the middle of or expects next, the
  stack holds the arrays and objects that are still open.
\<close>

datatype frame =
    ArrF "json list"
  | ObjF "(jsstring \<times> json) list"
  | ObjK "(jsstring \<times> json) list" jsstring

datatype numphase =
  AfterMinus | Zero | IntDigits | AfterDot | FracDigits | AfterE | AfterESign | ExpDigits

text \<open>Sign, digits of the mantissa, number of fraction digits, sign and digits of the exponent.\<close>

datatype numacc = NumAcc bool nat nat bool nat

datatype mode =
    Value
  | ValueOrEnd
  | KeyOrEnd
  | Key
  | Colon
  | CommaOrEnd
  | Done json
  | InStr bool jsstring
  | InEsc bool jsstring
  | InHex bool jsstring nat nat
  | InLit jsstring json
  | InNum numphase numacc
  | Err

type_synonym pstate = "mode \<times> frame list"

definition json_ws :: "nat \<Rightarrow> bool" where
  "json_ws c \<longleftrightarrow> c = 9 \<or> c = 10 \<or> c = 13 \<or> c = 32"

fun num_value :: "numacc \<Rightarrow> rat" where
  "num_value (NumAcc neg m f eneg e) =
     (if neg then - 1 else 1) * of_nat m * (if eneg then 1 / 10 ^ e else 10 ^ e) / 10 ^ f"

fun accepting :: "numphase \<Rightarrow> bool" where
  "accepting Zero = True"
| "accepting IntDigits = True"
| "accepting FracDigits = True"
| "accepting ExpDigits = True"
| "accepting _ = False"

text \<open>
  \<open>-?(0|[1-9][0-9]*)(\.[0-9]+)?([eE][+-]?[0-9]+)?\<close>: the next phase when \<open>c\<close> continues
  the number, \<open>None\<close> when it does not.
\<close>

fun num_step :: "numphase \<Rightarrow> numacc \<Rightarrow> nat \<Rightarrow> (numphase \<times> numacc) option" where
  "num_step ph (NumAcc neg m f eneg e) c =
     (case ph of
        AfterMinus \<Rightarrow>
          if c = 48 then Some (Zero, NumAcc neg m f eneg e)
          else if 49 \<le> c \<and> c \<le> 57 then Some (IntDigits, NumAcc neg (c - 48) f eneg e)
          else None
      | Zero \<Rightarrow>
          if c = 46 then Some (AfterDot, NumAcc neg m f eneg e)
          else if c = 101 \<or> c = 69 then Some (AfterE, NumAcc neg m f eneg e)
          else None
      | IntDigits \<Rightarrow>
          if is_digit c then Some (IntDigits, NumAcc neg (m * 10 + (c - 48)) f eneg e)
          else if c = 46 then Some (AfterDot, NumAcc neg m f eneg e)
          else if c = 101 \<or> c = 69 then Some (AfterE, NumAcc neg m f eneg e)
          else None
      | AfterDot \<Rightarrow>
          if is_digit c then Some (FracDigits, NumAcc neg (m * 10 + (c - 48)) (Suc f) eneg e)
          else None
      | FracDigits \<Rightarrow>
          if is_digit c then Some (FracDigits, NumAcc neg (m * 10 + (c - 48)) (Suc f) eneg e)
          else if c = 101 \<or> c = 69 then Some (AfterE, NumAcc neg m f eneg e)
          else None
      | AfterE \<Rightarrow>
          if c = 43 then Some (AfterESign, NumAcc neg m f eneg e)
          else if c = 45 then Some (AfterESign, NumAcc neg m f True e)
          else if is_digit c then Some (ExpDigits, NumAcc neg m f eneg (c - 48))
          else None
      | AfterESign \<Rightarrow>
          if is_digit c then Some (ExpDigits, NumAcc neg m f eneg (c - 48)) else None
      | ExpDigits \<Rightarrow>
          if is_digit c then Some (ExpDigits, NumAcc neg m f eneg (e * 10 + (c - 48)))
          else None)"

definition hex_digit :: "nat \<Rightarrow> nat option" where
  "hex_digit c =
     (if is_digit c then Some (c - 48)
      else if 97 \<le> c \<and> c \<le> 102 then Some (c - 87)
      else if 65 \<le> c \<and> c \<le> 70 then Some (c - 55)
      else None)"

text \<open>A complete value goes to the innermost open container, or is the result.\<close>

fun push_value :: "json \<Rightarrow> frame list \<Rightarrow> pstate" where
  "push_value v [] = (Done v, [])"
| "push_value v (ArrF items # st) = (CommaOrEnd, ArrF (items @ [v]) # st)"
| "push_value v (ObjK kvs k # st) = (CommaOrEnd, ObjF (obj_put k v kvs) # st)"
| "push_value v (ObjF kvs # st) = (Err, [])"

fun close_array :: "frame list \<Rightarrow> pstate" where
  "close_array (ArrF items # st) = push_value (JArr items) st"
| "close_array _ = (Err, [])"

fun close_object :: "frame list \<Rightarrow> pstate" where
  "close_object (ObjF kvs # st) = push_value (JObj kvs) st"
| "close_object _ = (Err, [])"

fun end_string :: "bool \<Rightarrow> jsstring \<Rightarrow> frame list \<Rightarrow> pstate" where
  "end_string False s st = push_value (JStr s) st"
| "end_string True s (ObjF kvs # st) = (Colon, ObjK kvs s # st)"
| "end_string True s _ = (Err, [])"

definition start_value :: "nat \<Rightarrow> frame list \<Rightarrow> pstate" where
  "start_value c st =
     (if c = 123 then (KeyOrEnd, ObjF [] # st)
      else if c = 91 then (ValueOrEnd, ArrF [] # st)
      else if c = 34 then (InStr False [], st)
      else if c = 45 then (InNum AfterMinus (NumAcc True 0 0 False 0), st)
      else if c = 48 then (InNum Zero (NumAcc False 0 0 False 0), st)
      else if 49 \<le> c \<and> c \<le> 57 then (InNum IntDigits (NumAcc False (c - 48) 0 False 0), st)
      else if c = 116 then (InLit [114, 117, 101] (JBool True), st)
      else if c = 102 then (InLit [97, 108, 115, 101] (JBool False), st)
      else if c = 110 then (InLit [117, 108, 108] JNull, st)
      else (Err, []))"

text \<open>A code unit between two tokens.\<close>

fun token_step :: "nat \<Rightarrow> pstate \<Rightarrow> pstate" where
  "token_step c (Err, st) = (Err, [])"
| "token_step c (m, st) =
     (if json_ws c then (m, st)
      else
        (case m of
           Value \<Rightarrow> start_value c st
         | ValueOrEnd \<Rightarrow> if c = 93 then close_array st else start_value c st
         | KeyOrEnd \<Rightarrow>
             if c = 34 then (InStr True [], st)
             else if c = 125 then close_object st
             else (Err, [])
         | Key \<Rightarrow> if c = 34 then (InStr True [], st) else (Err, [])
         | Colon \<Rightarrow> if c = 58 then (Value, st) else (Err, [])
         | CommaOrEnd \<Rightarrow>
             if c = 44 then
               (case st of
                  ArrF items # r \<Rightarrow> (Value, st)
                | ObjF kvs # r \<Rightarrow> (Key, st)
                | _ \<Rightarrow> (Err, []))
             else if c = 93 then close_array st
             else if c = 125 then close_object st
             else (Err, [])
         | _ \<Rightarrow> (Err, [])))"

fun step :: "nat \<Rightarrow> pstate \<Rightarrow> pstate" where
  "step c (InStr k s, st) =
     (if c = 34 then end_string k s st
      else if c = 92 then (InEsc k s, st)
      else if c < 32 then (Err, [])
      else (InStr k (s @ [c]), st))"
| "step c (InEsc k s, st) =
     (if c = 34 \<or> c = 92 \<or> c = 47 then (InStr k (s @ [c]), st)
      else if c = 98 then (InStr k (s @ [8]), st)
      else if c = 102 then (InStr k (s @ [12]), st)
      else if c = 110 then (InStr k (s @ [10]), st)
      else if c = 114 then (InStr k (s @ [13]), st)
      else if c = 116 then (InStr k (s @ [9]), st)
      else if c = 117 then (InHex k s 4 0, st)
      else (Err, []))"
| "step c (InHex k s n v, st) =
     (case hex_digit c of
        None \<Rightarrow> (Err, [])
      | Some d \<Rightarrow>
          if n \<le> 1 then (InStr k (s @ [v * 16 + d]), st)
          else (InHex k s (n - 1) (v * 16 + d), st))"
| "step c (InLit rem v, st) =
     (case rem of
        [] \<Rightarrow> (Err, [])
      | r # rs \<Rightarrow>
          if c \<noteq> r then (Err, [])
          else if rs = [] then push_value v st
          else (InLit rs v, st))"
| "step c (InNum ph acc, st) =
     (case num_step ph acc c of
        Some (ph', acc') \<Rightarrow> (InNum ph' acc', st)
      | None \<Rightarrow>
          if accepting ph then token_step c (push_value (JNum (num_value acc)) st)
          else (Err, []))"
| "step c (m, st) = token_step c (m, st)"

fun run :: "pstate \<Rightarrow> jsstring \<Rightarrow> pstate" where
  "run p [] = p"
| "run p (c # cs) = run (step c p) cs"

fun finalize :: "pstate \<Rightarrow> parse_error + json" where
  "finalize (Done v, st) = Inr v"
| "finalize (InNum ph acc, st) =
     (if accepting ph \<and> st = [] then Inr (JNum (num_value acc)) else Inl SyntaxError)"
| "finalize _ = Inl SyntaxError"

definition JSON_parse :: "jsstring \<Rightarrow> parse_error + json" where
  "JSON_parse s = finalize (run (Value, []) s)"

section \<open>The parsing stage of \<open>sanitizeAndParseJson\<close>\<close>

text \<open>
  How a call ends: with a value, or with a thrown value that escapes it. A thrown value is
  an instance of \<open>Error\<close> with its message, or anything else.
\<close>

datatype thrown = ErrorInstance jsstring | NotAnError

datatype 'a completion = Returns 'a | Throws thrown

subsection \<open>The brace and bracket counter (source lines 66 to 120)\<close>

text \<open>
  \<open>firstChar = saneJsonString.trimStart()[0]\<close> chooses the pair to count, if any.
\<close>

definition expected_pair :: "jsstring \<Rightarrow> (nat \<times> nat) option" where
  "expected_pair t =
     (case trimStart t of
        [] \<Rightarrow> None
      | firstChar # r \<Rightarrow>
          if firstChar = 123 then Some (123, 125)
          else if firstChar = 91 then Some (91, 93)
          else None)"

text \<open>The inner loop over \<open>j\<close>, on \<open>saneJsonString[0..i]\<close>.\<close>

fun initialStructuralCharFound :: "nat \<Rightarrow> jsstring \<Rightarrow> bool" where
  "initialStructuralCharFound expectedOpen [] = False"
| "initialStructuralCharFound expectedOpen (c # cs) =
     (if c = expectedOpen then True
      else if c \<noteq> 32 \<and> c \<noteq> 10 \<and> c \<noteq> 13 \<and> c \<noteq> 9 then False
      else initialStructuralCharFound expectedOpen cs)"

text \<open>
  The loop over \<open>i\<close>: \<open>rest\<close> is \<open>saneJsonString\<close> from index \<open>i\<close> on; the result is
  \<open>endIndex\<close>, \<open>None\<close> for \<open>-1\<close>. Both \<open>continue\<close> statements skip the test of
  \<open>openCount\<close>.
\<close>

fun scan ::
  "jsstring \<Rightarrow> nat \<Rightarrow> nat \<Rightarrow> nat \<Rightarrow> jsstring \<Rightarrow> int \<Rightarrow> bool \<Rightarrow> bool \<Rightarrow> nat option" where
  "scan saneJsonString expectedOpen expectedClose i [] openCount inString escapeNextChar = None"
| "scan saneJsonString expectedOpen expectedClose i (char # rest) openCount inString
     escapeNextChar =
     (if escapeNextChar then
        scan saneJsonString expectedOpen expectedClose (Suc i) rest openCount inString False
      else if char = 92 then
        scan saneJsonString expectedOpen expectedClose (Suc i) rest openCount inString True
      else
        (let inString' = (if char = 34 then \<not> inString else inString);
             openCount' =
               (if \<not> inString' then
                  (if char = expectedOpen then openCount + 1
                   else if char = expectedClose then openCount - 1
                   else openCount)
                else openCount)
         in if openCount' = 0 \<and>
               initialStructuralCharFound expectedOpen (take (Suc i) saneJsonString)
            then Some (Suc i)
            else scan saneJsonString expectedOpen expectedClose (Suc i) rest openCount'
                   inString' False))"

definition extractBalancedRegion :: "jsstring \<Rightarrow> jsstring option" where
  "extractBalancedRegion saneJsonString =
     (case expected_pair saneJsonString of
        None \<Rightarrow> None
      | Some (expectedOpen, expectedClose) \<Rightarrow>
          (case scan saneJsonString expectedOpen expectedClose 0 saneJsonString 0 False False of
             None \<Rightarrow> None
           | Some endIndex \<Rightarrow> Some (take endIndex saneJsonString)))"

subsection \<open>Strict parse, then the fallback (source lines 54 to 134)\<close>

text \<open>\<open>null\<close> is \<open>JNull\<close>: the absent result and a decoded \<open>null\<close> are the same value.\<close>

definition parse_sanitized :: "jsstring \<Rightarrow> json completion" where
  "parse_sanitized saneJsonString =
     (case JSON_parse saneJsonString of
        Inr v \<Rightarrow> Returns v
      | Inl e \<Rightarrow>
          if length saneJsonString = 0 then Returns JNull
          else
            (case extractBalancedRegion saneJsonString of
               Some potentialJson \<Rightarrow>
                 (case JSON_parse potentialJson of
                    Inr v \<Rightarrow> Returns v
                  | Inl e2 \<Rightarrow> Returns JNull)
             | None \<Rightarrow> Returns JNull))"

definition sanitizeAndParseJson :: "jsstring \<Rightarrow> json completion" where
  "sanitizeAndParseJson jsonString = parse_sanitized (sanitize jsonString)"

section \<open>The two session operations\<close>

text \<open>
  What a call of the model returns is not code of the repository: the outcome of
  \<open>ai.models.generateContent\<close> (and of \<open>chat.sendMessage\<close>) is a parameter, either a
  thrown value or a response with its \<open>text\<close>. An \<open>async\<close> function yields a promise that
  is resolved with the value returned or rejected with the value thrown.
\<close>

datatype invocation = CallThrows thrown | CallReturns jsstring

datatype 'a promise = Resolved 'a | Rejected thrown

text \<open>
  \<open>parsedData\<close> after the two assignments: an object with its members, or an array with
  its elements and the named properties put on it.
\<close>

datatype response =
    ObjectValue "(jsstring \<times> json) list"
  | ArrayValue "json list" "(jsstring \<times> json) list"

text \<open>
  \<open>!v\<close> and \<open>v || d\<close> test truthiness. A number literal is falsy when the double nearest
  to it is zero: its magnitude is at most \<open>2\<^sup>-\<^sup>1\<^sup>0\<^sup>7\<^sup>5\<close>, half the least positive double.
\<close>

fun js_truthy :: "json \<Rightarrow> bool" where
  "js_truthy JNull = False"
| "js_truthy (JBool b) = b"
| "js_truthy (JNum q) = (\<bar>q\<bar> > 1 / 2 ^ 1075)"
| "js_truthy (JStr s) = (s \<noteq> [])"
| "js_truthy (JArr xs) = True"
| "js_truthy (JObj kvs) = True"

text \<open>
  Reading and writing the members \<open>similarProducts\<close> and \<open>complementaryProducts\<close> (names
  that are neither an index nor inherited): a missing member reads as \<open>undefined\<close>, here
  \<open>None\<close>. The module is an ECMAScript module, hence strict code, where creating a property on
  a primitive value throws a TypeError; its message is the engine's, the parameter
  \<open>typeErrorMessage\<close>.
\<close>

fun as_object :: "json \<Rightarrow> response option" where
  "as_object (JObj kvs) = Some (ObjectValue kvs)"
| "as_object (JArr xs) = Some (ArrayValue xs [])"
| "as_object _ = None"

fun get_member :: "jsstring \<Rightarrow> response \<Rightarrow> json option" where
  "get_member k (ObjectValue kvs) = map_of kvs k"
| "get_member k (ArrayValue xs props) = map_of props k"

fun set_member :: "jsstring \<Rightarrow> json \<Rightarrow> response \<Rightarrow> response" where
  "set_member k v (ObjectValue kvs) = ObjectValue (obj_put k v kvs)"
| "set_member k v (ArrayValue xs props) = ArrayValue xs (obj_put k v props)"

text \<open>\<open>x || []\<close> for a member \<open>x\<close> that may be missing.\<close>

definition or_empty_array :: "json option \<Rightarrow> json" where
  "or_empty_array x = (case x of None \<Rightarrow> JArr [] | Some v \<Rightarrow> if js_truthy v then v else JArr [])"

subsection \<open>\<open>analyzeImageAndSuggestProducts\<close>\<close>

text \<open>The body of \<open>try\<close> (source lines 144 to 203), with what it throws.\<close>

definition analyze_try :: "jsstring \<Rightarrow> invocation \<Rightarrow> response completion" where
  "analyze_try typeErrorMessage call =
     (case call of
        CallThrows t \<Rightarrow> Throws t
      | CallReturns rawJson \<Rightarrow>
          (case sanitizeAndParseJson rawJson of
             Throws t \<Rightarrow> Throws t
           | Returns parsedData \<Rightarrow>
               if \<not> js_truthy parsedData then
                 Throws (ErrorInstance
                   (js ''Failed to parse Gemini response or response was empty.''))
               else
                 (case as_object parsedData of
                    None \<Rightarrow> Throws (ErrorInstance typeErrorMessage)
                  | Some p0 \<Rightarrow>
                      (let p1 = set_member (js ''similarProducts'')
                                  (or_empty_array (get_member (js ''similarProducts'') p0)) p0;
                           p2 = set_member (js ''complementaryProducts'')
                                  (or_empty_array (get_member (js ''complementaryProducts'') p1))
                                  p1
                       in Returns p2))))"

text \<open>The \<open>catch\<close> block (source lines 205 to 214).\<close>

definition analysis_error_message :: "thrown \<Rightarrow> jsstring" where
  "analysis_error_message error =
     (case error of
        ErrorInstance message \<Rightarrow> message
      | NotAnError \<Rightarrow> js ''An unknown error occurred during image analysis.'')"

definition analyze_catch :: "thrown \<Rightarrow> response" where
  "analyze_catch error =
     ObjectValue
       [(js ''analysis'',
         JStr (js ''Error during analysis: '' @ analysis_error_message error @
               js ''. Please try a different image or prompt.'')),
        (js ''similarProducts'', JArr []),
        (js ''complementaryProducts'', JArr [])]"

definition analyzeImageAndSuggestProducts ::
  "jsstring \<Rightarrow> invocation \<Rightarrow> response promise" where
  "analyzeImageAndSuggestProducts typeErrorMessage call =
     (case analyze_try typeErrorMessage call of
        Returns parsedData \<Rightarrow> Resolved parsedData
      | Throws error \<Rightarrow> Resolved (analyze_catch error))"

subsection \<open>\<open>sendMessageInChat\<close>\<close>

definition chat_error_message :: "thrown \<Rightarrow> jsstring" where
  "chat_error_message error =
     (case error of
        ErrorInstance message \<Rightarrow> message
      | NotAnError \<Rightarrow> js ''An unknown error occurred during chat.'')"

definition sendMessageInChat :: "invocation \<Rightarrow> jsstring promise" where
  "sendMessageInChat call =
     (case call of
        CallReturns text \<Rightarrow> Resolved text
      | CallThrows error \<Rightarrow>
          Resolved (js ''I apologize, but I encountered an error: '' @ chat_error_message error))"

section \<open>Notions used in the proofs\<close>

text \<open>
  The counter of the fallback and the reader of \<open>JSON.parse\<close> go over the same text. While
  the reader has not failed, the counter's \<open>inString\<close> and \<open>escapeNextChar\<close> agree with what
  the reader is in the middle of, and \<open>openCount\<close> is the number of open containers of the
  counted kind (\<open>in_sync\<close>). \<open>is_open\<close>: the outermost open container is of the counted
  kind. \<open>closes p cs\<close>: started in \<open>p\<close>, the reader completes the outermost value exactly at
  the end of \<open>cs\<close>. \<open>open_along\<close>: the outermost container stays open all along the text.
\<close>

fun frame_is :: "nat \<Rightarrow> frame \<Rightarrow> bool" where
  "frame_is eo (ArrF items) = (eo = 91)"
| "frame_is eo (ObjF kvs) = (eo = 123)"
| "frame_is eo (ObjK kvs k) = (eo = 123)"

definition count_open :: "nat \<Rightarrow> frame list \<Rightarrow> nat" where
  "count_open eo st = length (filter (frame_is eo) st)"

fun bottom_is :: "nat \<Rightarrow> frame list \<Rightarrow> bool" where
  "bottom_is eo [] = False"
| "bottom_is eo [f] = frame_is eo f"
| "bottom_is eo (f # g # st) = bottom_is eo (g # st)"

fun is_open :: "nat \<Rightarrow> pstate \<Rightarrow> bool" where
  "is_open eo (Err, st) = False"
| "is_open eo (Done v, st) = False"
| "is_open eo (m, st) = bottom_is eo st"

fun in_sync :: "nat \<Rightarrow> pstate \<Rightarrow> int \<Rightarrow> bool \<Rightarrow> bool \<Rightarrow> bool" where
  "in_sync eo (InStr k s, st) n ins esc = (n = int (count_open eo st) \<and> ins \<and> \<not> esc)"
| "in_sync eo (InEsc k s, st) n ins esc = (n = int (count_open eo st) \<and> ins \<and> esc)"
| "in_sync eo (InHex k s a b, st) n ins esc = (n = int (count_open eo st) \<and> ins \<and> \<not> esc)"
| "in_sync eo (InLit r v, st) n ins esc =
     (n = int (count_open eo st) \<and> \<not> ins \<and> \<not> esc \<and> list_all is_alpha r)"
| "in_sync eo (m, st) n ins esc = (n = int (count_open eo st) \<and> \<not> ins \<and> \<not> esc)"

fun closes :: "pstate \<Rightarrow> jsstring \<Rightarrow> bool" where
  "closes p [] = False"
| "closes p (c # cs) =
     (case step c p of
        (Done v, st) \<Rightarrow> cs = []
      | (Err, st) \<Rightarrow> False
      | p' \<Rightarrow> closes p' cs)"

fun open_along :: "nat \<Rightarrow> pstate \<Rightarrow> jsstring \<Rightarrow> bool" where
  "open_along eo p [] = True"
| "open_along eo p (c # cs) = (is_open eo (step c p) \<and> open_along eo (step c p) cs)"

definition pair_ok :: "nat \<Rightarrow> nat \<Rightarrow> bool" where
  "pair_ok eo ec \<longleftrightarrow> (eo = 123 \<and> ec = 125) \<or> (eo = 91 \<and> ec = 93)"

fun token_mode :: "mode \<Rightarrow> bool" where
  "token_mode Value = True"
| "token_mode ValueOrEnd = True"
| "token_mode KeyOrEnd = True"
| "token_mode Key = True"
| "token_mode Colon = True"
| "token_mode CommaOrEnd = True"
| "token_mode (Done v) = True"
| "token_mode _ = False"

definition next_in_string :: "nat \<Rightarrow> bool \<Rightarrow> bool" where
  "next_in_string c ins = (if c = 34 then \<not> ins else ins)"

definition next_count :: "nat \<Rightarrow> nat \<Rightarrow> nat \<Rightarrow> bool \<Rightarrow> int \<Rightarrow> int" where
  "next_count eo ec c ins' n =
     (if \<not> ins' then (if c = eo then n + 1 else if c = ec then n - 1 else n) else n)"

text \<open>
  \<open>lit_ok\<close>: what is left of a literal being read consists of letters. \<open>number_rest\<close>: the
  rest of a number continues it to the end and ends it well. \<open>exp_tail\<close> and \<open>frac_tail\<close>
  are the two tails of the number shape in \<open>is_number_text\<close>.
\<close>

fun lit_ok :: "pstate \<Rightarrow> bool" where
  "lit_ok (InLit r w, st) = list_all is_alpha r"
| "lit_ok _ = True"




text \<open>\<open>no_fence\<close>: the text contains no fence marker, that is no three backticks in a row.\<close>

definition no_fence :: "jsstring \<Rightarrow> bool" where
  "no_fence s \<longleftrightarrow> \<not> includes_str fence s"

text \<open>
  \<open>lit_zone\<close>: the reader is in the middle of a literal or has just completed a value,
  which is where it can be after a letter outside a string.
\<close>

fun lit_zone :: "pstate \<Rightarrow> bool" where
  "lit_zone (InLit r v, st) = (r \<noteq> [] \<and> list_all is_alpha r)"
| "lit_zone (CommaOrEnd, st) = True"
| "lit_zone (Done v, st) = True"
| "lit_zone _ = False"

section \<open>Facts about the model\<close>

subsection \<open>Trimming and the empty text\<close>

lemma trim_Nil: "trim [] = []"
  by (simp add: trim_def trimStart_def trimEnd_def)

lemma trim_all_space: "list_all is_space s \<Longrightarrow> trim s = []"
proof -
  assume "list_all is_space s"
  then have h: "dropWhile is_space s = []" by (simp add: list_all_iff)
  show ?thesis by (simp only: trim_def trimStart_def trimEnd_def h rev.simps dropWhile.simps)
qed

lemma sanitize_empty: "sanitize [] = []"
  by code_simp

lemma sanitize_of_trim_empty: "trim s = [] \<Longrightarrow> sanitize s = []"
  using sanitize_empty by (simp add: sanitize_def trim_Nil)

lemma parse_sanitized_returns: "\<exists>v. parse_sanitized t = Returns v"
  by (simp add: parse_sanitized_def split: sum.splits option.splits)

lemma parse_sanitized_empty: "parse_sanitized [] = Returns JNull"
  by (simp add: parse_sanitized_def JSON_parse_def)

subsection \<open>Members of the response\<close>

lemma map_of_obj_put_same: "map_of (obj_put k v kvs) k = Some v"
  by (induction kvs) auto

lemma map_of_obj_put_other: "k' \<noteq> k \<Longrightarrow> map_of (obj_put k v kvs) k' = map_of kvs k'"
  by (induction kvs) auto

lemma get_set_member_same: "get_member k (set_member k v p) = Some v"
  by (cases p) (simp_all add: map_of_obj_put_same)

lemma get_set_member_other: "k' \<noteq> k \<Longrightarrow> get_member k' (set_member k v p) = get_member k' p"
  by (cases p) (simp_all add: map_of_obj_put_other)

lemma or_empty_array_truthy: "js_truthy (or_empty_array x)"
  by (simp add: or_empty_array_def split: option.splits)

lemma member_names_differ: "js ''similarProducts'' \<noteq> js ''complementaryProducts''"
  by (simp add: js_def)

lemma analyze_catch_members:
  "get_member (js ''similarProducts'') (analyze_catch e) = Some (JArr [])"
  "get_member (js ''complementaryProducts'') (analyze_catch e) = Some (JArr [])"
  "get_member (js ''analysis'') (analyze_catch e) =
     Some (JStr (js ''Error during analysis: '' @ analysis_error_message e @
                 js ''. Please try a different image or prompt.''))"
  by (simp_all add: analyze_catch_def js_def)

lemma analysis_text_nonempty: "js ''Error during analysis: '' \<noteq> []"
  by (simp add: js_def)

lemma analyze_try_members:
  assumes "analyze_try m call = Returns r"
  shows "\<exists>p0. r = set_member (js ''complementaryProducts'')
                  (or_empty_array (get_member (js ''complementaryProducts'')
                     (set_member (js ''similarProducts'')
                        (or_empty_array (get_member (js ''similarProducts'') p0)) p0)))
                  (set_member (js ''similarProducts'')
                     (or_empty_array (get_member (js ''similarProducts'') p0)) p0)"
  using assms
  by (auto simp: analyze_try_def Let_def
      split: invocation.splits completion.splits if_splits option.splits)

subsection \<open>More on trimming\<close>

lemma trimStart_Cons: "\<not> is_space c \<Longrightarrow> trimStart (c # r) = c # r"
  by (simp add: trimStart_def)

lemma trimEnd_snoc: "\<not> is_space c \<Longrightarrow> trimEnd (r @ [c]) = r @ [c]"
  by (simp add: trimEnd_def)

lemma trimEnd_snoc_space: "is_space c \<Longrightarrow> trimEnd (r @ [c]) = trimEnd r"
  by (simp add: trimEnd_def)

lemma trimEnd_Cons: "\<not> is_space c \<Longrightarrow> trimEnd (c # r) = c # trimEnd r"
  by (simp add: trimEnd_def dropWhile_append)

lemma trimEnd_idem: "trimEnd (trimEnd s) = trimEnd s"
  by (simp add: trimEnd_def)

lemma trimStart_space: "is_space c \<Longrightarrow> trimStart (c # r) = trimStart r"
  by (simp add: trimStart_def)

lemma trim_Cons: "\<not> is_space c \<Longrightarrow> trim (c # r) = c # trimEnd r"
  by (simp add: trim_def trimStart_Cons trimEnd_Cons)

lemma trim_cases: "trim s = [] \<or> (\<exists>c r. trim s = c # trimEnd r \<and> \<not> is_space c \<and> trimStart s = c # r)"
proof (cases "trimStart s")
  case Nil
  then show ?thesis by (simp add: trim_def trimEnd_def)
next
  case (Cons c r)
  then have "\<not> is_space c"
    unfolding trimStart_def by (metis hd_dropWhile list.sel(1) list.distinct(1))
  then show ?thesis using Cons by (simp add: trim_def trimEnd_Cons)
qed

lemma trim_idem: "trim (trim s) = trim s"
  using trim_cases [of s] by (auto simp: trim_Cons trimEnd_idem trim_Nil)


lemma trimEnd_id: "s \<noteq> [] \<Longrightarrow> \<not> is_space (last s) \<Longrightarrow> trimEnd s = s"
  by (metis append_butlast_last_id trimEnd_snoc)

lemma trim_id: "s \<noteq> [] \<Longrightarrow> \<not> is_space (hd s) \<Longrightarrow> \<not> is_space (last s) \<Longrightarrow> trim s = s"
  by (cases s) (simp_all add: trim_def trimStart_Cons trimEnd_id)

lemma trim_hd: "trim s \<noteq> [] \<Longrightarrow> \<not> is_space (hd (trim s))"
  using trim_cases [of s] by auto


lemma set_trimEnd: "set (trimEnd s) \<subseteq> set s"
  unfolding trimEnd_def by (metis set_dropWhileD set_rev subsetI)

lemma set_trim: "set (trim s) \<subseteq> set s"
  unfolding trim_def trimStart_def using set_trimEnd
  by (metis (no_types, lifting) set_dropWhileD subset_iff)

subsection \<open>The JSON reader\<close>

lemma step_Err [simp]: "step c (Err, st) = (Err, [])"
  by simp

lemma run_Err [simp]: "fst (run (Err, st) s) = Err"
  by (induction s arbitrary: st) simp_all

lemma finalize_Err: "fst p = Err \<Longrightarrow> finalize p = Inl SyntaxError"
  by (cases p) simp

lemma finalize_run_Err [simp]: "finalize (run (Err, st) s) = Inl SyntaxError"
  by (simp add: finalize_Err)

lemma run_append: "run p (a @ b) = run (run p a) b"
  by (induction a arbitrary: p) simp_all

lemma json_ws_is_space: "json_ws c \<Longrightarrow> is_space c"
  by (auto simp: json_ws_def is_space_def)

lemma start_value_ok: "fst (start_value c st) \<noteq> Err \<Longrightarrow> \<not> is_space c \<and> c \<noteq> 96 \<and> c \<noteq> 92"
  by (auto simp: start_value_def is_space_def split: if_splits)

lemma step_Value_ws: "json_ws c \<Longrightarrow> step c (Value, st) = (Value, st)"
  by simp

lemma step_Value_start: "\<not> json_ws c \<Longrightarrow> step c (Value, st) = start_value c st"
  by simp

lemma JSON_parse_first:
  "JSON_parse j = Inr v \<Longrightarrow>
   \<exists>c r. trimStart j = c # r \<and> fst (start_value c []) \<noteq> Err \<and> JSON_parse (c # r) = Inr v"
proof (induction j)
  case Nil
  then show ?case by (simp add: JSON_parse_def)
next
  case (Cons a j)
  show ?case
  proof (cases "json_ws a")
    case True
    then have "JSON_parse j = Inr v" using Cons.prems by (simp add: JSON_parse_def)
    from Cons.IH [OF this] show ?thesis
      using True by (simp add: trimStart_def json_ws_is_space)
  next
    case False
    have ne: "fst (start_value a []) \<noteq> Err"
    proof
      assume "fst (start_value a []) = Err"
      then have "step a (Value, []) = (Err, snd (start_value a []))"
        using False by (simp add: prod_eq_iff)
      then show False using Cons.prems by (simp add: JSON_parse_def del: step.simps)
    qed
    then have "\<not> is_space a" using start_value_ok by blast
    then show ?thesis using ne Cons.prems by (simp add: trimStart_def)
  qed
qed

lemma JSON_parse_trim_hd:
  assumes "JSON_parse j = Inr v"
  shows "trim j \<noteq> [] \<and> hd (trim j) \<noteq> 96"
proof -
  from JSON_parse_first [OF assms] obtain c r where
    cr: "trimStart j = c # r" "fst (start_value c []) \<noteq> Err" by blast
  then have "\<not> is_space c" "c \<noteq> 96" using start_value_ok by blast+
  then show ?thesis using cr by (simp add: trim_def trimEnd_Cons)
qed

subsection \<open>Fences\<close>

lemma unwrap_fence_no_fence: "take 3 t \<noteq> fence \<Longrightarrow> unwrap_fence t = t"
  by (simp add: unwrap_fence_def fence_group2_def)

lemma unwrap_fence_hd: "t \<noteq> [] \<Longrightarrow> hd t \<noteq> 96 \<Longrightarrow> unwrap_fence t = t"
  by (cases t) (auto simp: unwrap_fence_no_fence fence_def)

lemma trim_fenced_block: "trim (fenced_block tag j) = fenced_block tag j"
  by (rule trim_id) (simp_all add: fenced_block_def fence_def is_space_def)

lemma fence_group2_fenced_block:
  assumes tag: "list_all is_word tag" and j: "trim j \<noteq> []"
  shows "fence_group2 (fenced_block tag j) = Some (trim j)"
proof -
  let ?F = "fenced_block tag j"
  have len: "length ?F = length tag + length j + 8"
    by (simp add: fenced_block_def fence_def)
  have mid: "take (length ?F - 6) (drop 3 ?F) = tag @ 10 # j @ [10]"
    by (simp add: fenced_block_def fence_def)
  have t3: "take 3 ?F = fence" by (simp add: fenced_block_def fence_def)
  have split: "?F = (fence @ tag @ 10 # j @ [10]) @ fence"
    by (simp add: fenced_block_def)
  have "length ?F - 3 = length (fence @ tag @ 10 # j @ [10])"
    by (simp add: len fence_def)
  then have d3: "drop (length ?F - 3) ?F = fence"
    by (metis split append_eq_conv_conj)
  have w: "dropWhile is_word (tag @ 10 # j @ [10]) = 10 # j @ [10]"
    using tag by (simp add: list_all_iff is_word_def is_alnum_def is_alpha_def is_digit_def)
  from j have ts: "trimStart j \<noteq> []" by (auto simp: trim_def trimEnd_def)
  then obtain x where x: "x \<in> set j" "\<not> is_space x"
    by (auto simp: trimStart_def)
  have sp: "dropWhile is_space (10 # j @ [10]) = trimStart j @ [10]"
    using x by (simp add: is_space_def [of 10] trimStart_def)
  have e: "trimEnd (trimStart j @ [10]) = trim j"
    by (simp add: trimEnd_snoc_space is_space_def [of 10] trim_def)
  have six: "6 \<le> length ?F" by (simp add: len)
  show ?thesis
    by (simp only: fence_group2_def t3 d3 mid w sp e six simp_thms if_True)
qed

lemma unwrap_fence_fenced_block:
  "list_all is_word tag \<Longrightarrow> trim j \<noteq> [] \<Longrightarrow> unwrap_fence (fenced_block tag j) = trim j"
  by (simp add: unwrap_fence_def fence_group2_fenced_block trim_idem)

lemma sanitize_fenced_block:
  assumes "list_all is_word tag" "trim j \<noteq> []" "hd (trim j) \<noteq> 96"
  shows "sanitize (fenced_block tag j) = sanitize j"
  using assms
  by (simp add: sanitize_def trim_fenced_block unwrap_fence_fenced_block unwrap_fence_hd)

subsection \<open>The reader and the counter in step\<close>

lemma count_open_simps [simp]:
  "count_open eo [] = 0"
  "count_open eo (f # st) = (if frame_is eo f then Suc (count_open eo st) else count_open eo st)"
  by (simp_all add: count_open_def)

lemma bottom_is_Cons:
  "bottom_is eo (f # st) = (if st = [] then frame_is eo f else bottom_is eo st)"
  by (cases st) simp_all

lemma bottom_count: "bottom_is eo st \<Longrightarrow> 0 < count_open eo st"
  by (induction eo st rule: bottom_is.induct) (auto split: if_splits)

lemma push_value_count:
  "fst (push_value v st) \<noteq> Err \<Longrightarrow> count_open eo (snd (push_value v st)) = count_open eo st"
  by (induction v st rule: push_value.induct) auto


lemma push_value_bottom:
  "fst (push_value v st) \<noteq> Err \<Longrightarrow> bottom_is eo (snd (push_value v st)) = bottom_is eo st"
  by (induction v st rule: push_value.induct) (simp_all add: bottom_is_Cons)

lemma close_array_count:
  "fst (close_array st) \<noteq> Err \<Longrightarrow>
   int (count_open eo (snd (close_array st))) = int (count_open eo st) - (if eo = 91 then 1 else 0)"
  by (induction st rule: close_array.induct) (simp_all add: push_value_count)

lemma close_object_count:
  "fst (close_object st) \<noteq> Err \<Longrightarrow>
   int (count_open eo (snd (close_object st))) = int (count_open eo st) - (if eo = 123 then 1 else 0)"
  by (induction st rule: close_object.induct) (simp_all add: push_value_count)

lemma push_value_open:
  "fst (push_value v st) \<noteq> Err \<Longrightarrow> st \<noteq> [] \<Longrightarrow>
   is_open eo (push_value v st) = bottom_is eo st"
  by (induction v st rule: push_value.induct) (simp_all add: bottom_is_Cons)

lemma push_value_open_bottom:
  "fst (push_value v st) \<noteq> Err \<Longrightarrow> bottom_is eo st \<Longrightarrow> is_open eo (push_value v st)"
  by (induction v st rule: push_value.induct) (auto simp: bottom_is_Cons split: if_splits)

lemma push_value_sync:
  "fst (push_value v st) \<noteq> Err \<Longrightarrow>
   in_sync eo (push_value v st) n False False = (n = int (count_open eo st))"
  by (induction v st rule: push_value.induct) simp_all

lemma close_array_sync:
  "fst (close_array st) \<noteq> Err \<Longrightarrow>
   in_sync eo (close_array st) n False False =
     (n = int (count_open eo st) - (if eo = 91 then 1 else 0))"
  by (induction st rule: close_array.induct) (simp_all add: push_value_sync)

lemma close_object_sync:
  "fst (close_object st) \<noteq> Err \<Longrightarrow>
   in_sync eo (close_object st) n False False =
     (n = int (count_open eo st) - (if eo = 123 then 1 else 0))"
  by (induction st rule: close_object.induct) (simp_all add: push_value_sync)

lemma close_array_open:
  "fst (close_array st) \<noteq> Err \<Longrightarrow> bottom_is eo st \<Longrightarrow>
   is_open eo (close_array st) \<or> (\<exists>v. close_array st = (Done v, []))"
  by (induction st rule: close_array.induct)
     (auto simp: bottom_is_Cons push_value_open split: if_splits)

lemma close_object_open:
  "fst (close_object st) \<noteq> Err \<Longrightarrow> bottom_is eo st \<Longrightarrow>
   is_open eo (close_object st) \<or> (\<exists>v. close_object st = (Done v, []))"
  by (induction st rule: close_object.induct)
     (auto simp: bottom_is_Cons push_value_open split: if_splits)

lemma end_string_sync:
  "fst (end_string k s st) \<noteq> Err \<Longrightarrow>
   in_sync eo (end_string k s st) n False False = (n = int (count_open eo st))"
  by (induction k s st rule: end_string.induct) (simp_all add: push_value_sync)

lemma end_string_open:
  "fst (end_string k s st) \<noteq> Err \<Longrightarrow> bottom_is eo st \<Longrightarrow> is_open eo (end_string k s st)"
  by (induction k s st rule: end_string.induct)
     (auto simp: bottom_is_Cons push_value_open_bottom split: if_splits)

lemma start_value_sync:
  assumes "fst (start_value c st) \<noteq> Err" "pair_ok eo ec"
  shows "in_sync eo (start_value c st)
           (if c = eo then int (count_open eo st) + 1 else int (count_open eo st)) (c = 34) False"
  using assms by (auto simp: start_value_def pair_ok_def is_alpha_def split: if_splits)

lemma start_value_open:
  "fst (start_value c st) \<noteq> Err \<Longrightarrow> bottom_is eo st \<Longrightarrow> is_open eo (start_value c st)"
  by (auto simp: start_value_def bottom_is_Cons split: if_splits)

lemma start_value_chars:
  "fst (start_value c st) \<noteq> Err \<Longrightarrow> c \<noteq> 92 \<and> c \<noteq> 125 \<and> c \<noteq> 93"
  by (auto simp: start_value_def split: if_splits)

lemma token_step_sync:
  assumes "token_mode m" "fst (token_step c (m, st)) \<noteq> Err" "pair_ok eo ec"
  shows "c \<noteq> 92 \<and>
         in_sync eo (token_step c (m, st))
           (next_count eo ec c (next_in_string c False) (int (count_open eo st)))
           (next_in_string c False) False"
proof (cases "json_ws c")
  case True
  then show ?thesis using assms
    by (cases m) (auto simp: json_ws_def next_count_def next_in_string_def pair_ok_def)
next
  case False
  note nws = this
  show ?thesis
  proof (cases m)
    case Value
    then show ?thesis
      using assms nws start_value_sync [of c st eo ec] start_value_chars [of c st]
      by (auto simp: next_count_def next_in_string_def pair_ok_def)
  next
    case ValueOrEnd
    then show ?thesis
      using assms nws start_value_sync [of c st eo ec] start_value_chars [of c st]
        close_array_sync [of st eo]
      by (auto simp: next_count_def next_in_string_def pair_ok_def split: if_splits)
  next
    case KeyOrEnd
    then show ?thesis
      using assms nws close_object_sync [of st eo]
      by (auto simp: next_count_def next_in_string_def pair_ok_def split: if_splits)
  next
    case Key
    then show ?thesis
      using assms nws
      by (auto simp: next_count_def next_in_string_def pair_ok_def split: if_splits)
  next
    case Colon
    then show ?thesis
      using assms nws
      by (auto simp: next_count_def next_in_string_def pair_ok_def split: if_splits)
  next
    case CommaOrEnd
    then show ?thesis
      using assms nws close_object_sync [of st eo] close_array_sync [of st eo]
      by (auto simp: next_count_def next_in_string_def pair_ok_def
          split: if_splits list.splits frame.splits)
  qed (use assms nws in auto)
qed

lemma token_step_open:
  assumes "token_mode m" "fst (token_step c (m, st)) \<noteq> Err" "is_open eo (m, st)"
  shows "is_open eo (token_step c (m, st)) \<or> (\<exists>v. token_step c (m, st) = (Done v, []))"
proof (cases "json_ws c")
  case True
  then show ?thesis using assms by (cases m) auto
next
  case False
  note nws = this
  show ?thesis
  proof (cases m)
    case Value
    then show ?thesis using assms nws start_value_open [of c st eo] by auto
  next
    case ValueOrEnd
    then show ?thesis
      using assms nws start_value_open [of c st eo] close_array_open [of st eo]
      by (auto split: if_splits)
  next
    case KeyOrEnd
    then show ?thesis
      using assms nws close_object_open [of st eo] by (auto split: if_splits)
  next
    case CommaOrEnd
    then show ?thesis
      using assms nws close_object_open [of st eo] close_array_open [of st eo]
      by (auto split: if_splits list.splits frame.splits)
  qed (use assms nws in \<open>auto split: if_splits\<close>)
qed


lemma num_step_char:
  "num_step ph acc c = Some x \<Longrightarrow>
   c \<noteq> 34 \<and> c \<noteq> 92 \<and> c \<noteq> 123 \<and> c \<noteq> 125 \<and> c \<noteq> 91 \<and> c \<noteq> 93 \<and> \<not> json_ws c"
  by (cases acc; cases ph) (auto simp: is_digit_def json_ws_def split: if_splits)

lemma push_value_token_mode: "fst (push_value v st) \<noteq> Err \<Longrightarrow> token_mode (fst (push_value v st))"
  by (induction v st rule: push_value.induct) simp_all

lemma step_sync:
  assumes "in_sync eo p n ins esc" "fst (step c p) \<noteq> Err" "pair_ok eo ec"
  shows "(esc \<longrightarrow> in_sync eo (step c p) n ins False) \<and>
         (\<not> esc \<and> c = 92 \<longrightarrow> in_sync eo (step c p) n ins True) \<and>
         (\<not> esc \<and> c \<noteq> 92 \<longrightarrow>
            in_sync eo (step c p) (next_count eo ec c (next_in_string c ins) n)
              (next_in_string c ins) False)"
proof (cases p)
  case (Pair m st)
  show ?thesis
  proof (cases m)
    case (InStr k s)
    then show ?thesis
      using assms Pair end_string_sync [of k s st eo]
      by (auto simp: next_count_def next_in_string_def pair_ok_def split: if_splits)
  next
    case (InEsc k s)
    then show ?thesis
      using assms Pair by (auto split: if_splits)
  next
    case (InHex k s a b)
    then show ?thesis
      using assms Pair
      by (auto simp: next_count_def next_in_string_def pair_ok_def hex_digit_def is_digit_def
          split: if_splits option.splits)
  next
    case (InLit r v)
    then show ?thesis
      using assms Pair push_value_sync [of v st eo]
      by (auto simp: next_count_def next_in_string_def pair_ok_def is_alpha_def
          split: if_splits list.splits)
  next
    case (InNum ph acc)
    show ?thesis
    proof (cases "num_step ph acc c")
      case (Some x)
      then show ?thesis
        using assms Pair InNum num_step_char [OF Some]
        by (cases x) (auto simp: next_count_def next_in_string_def pair_ok_def)
    next
      case None
      obtain m' st' where pv: "push_value (JNum (num_value acc)) st = (m', st')"
        by (cases "push_value (JNum (num_value acc)) st")
      have st: "step c p = token_step c (m', st')" and acc: "accepting ph"
        using assms Pair InNum None pv by (auto split: if_splits)
      have ne: "m' \<noteq> Err" using st assms by auto
      then have tm: "token_mode m'" and cnt: "count_open eo st' = count_open eo st"
        using push_value_token_mode [of "JNum (num_value acc)" st]
          push_value_count [of "JNum (num_value acc)" st eo] pv by auto
      have "\<not> ins" "\<not> esc" "n = int (count_open eo st)"
        using assms Pair InNum by auto
      then show ?thesis
        using token_step_sync [OF tm _ assms(3), of c st'] assms(2) st cnt
        by (auto simp: next_in_string_def)
    qed
  next
    case Err
    then show ?thesis using assms Pair by simp
  qed (use assms Pair token_step_sync [of m c st eo ec] in auto)
qed

lemma step_open:
  assumes "is_open eo p" "fst (step c p) \<noteq> Err"
  shows "is_open eo (step c p) \<or> (\<exists>v. step c p = (Done v, []))"
proof (cases p)
  case (Pair m st)
  show ?thesis
  proof (cases m)
    case (InStr k s)
    then show ?thesis
      using assms Pair end_string_open [of k s st eo] by (auto split: if_splits)
  next
    case (InEsc k s)
    then show ?thesis using assms Pair by (auto split: if_splits)
  next
    case (InHex k s a b)
    then show ?thesis using assms Pair by (auto split: if_splits option.splits)
  next
    case (InLit r v)
    then show ?thesis
      using assms Pair push_value_open_bottom [of v st eo]
      by (auto split: if_splits list.splits)
  next
    case (InNum ph acc)
    show ?thesis
    proof (cases "num_step ph acc c")
      case (Some x)
      then show ?thesis using assms Pair InNum by (cases x) auto
    next
      case None
      obtain m' st' where pv: "push_value (JNum (num_value acc)) st = (m', st')"
        by (cases "push_value (JNum (num_value acc)) st")
      have st: "step c p = token_step c (m', st')"
        using assms Pair InNum None pv by (auto split: if_splits)
      have ne: "m' \<noteq> Err" using st assms by auto
      then have tm: "token_mode m'"
        using push_value_token_mode [of "JNum (num_value acc)" st] pv by auto
      have "bottom_is eo st" using assms Pair InNum by simp
      then have "is_open eo (m', st')"
        using push_value_open_bottom [of "JNum (num_value acc)" st eo] pv ne by simp
      then show ?thesis
        using token_step_open [OF tm _ , of c st' eo] assms(2) st by simp
    qed
  next
    case Err
    then show ?thesis using assms Pair by simp
  next
    case (Done v)
    then show ?thesis using assms Pair by simp
  qed (use assms Pair token_step_open [of m c st eo] in auto)
qed

subsection \<open>Runs of the reader and of the counter\<close>

lemma is_open_bottom: "is_open eo (m, st) \<Longrightarrow> bottom_is eo st"
  by (cases m) simp_all

lemma is_open_not_Err: "is_open eo p \<Longrightarrow> fst p \<noteq> Err"
  by (cases p) auto

lemma in_sync_count: "in_sync eo (m, st) n ins esc \<Longrightarrow> n = int (count_open eo st)"
  by (cases m) simp_all

lemma in_sync_open_pos:
  assumes "in_sync eo p n ins esc" "is_open eo p"
  shows "0 < n"
proof (cases p)
  case (Pair m st)
  then have "n = int (count_open eo st)" "bottom_is eo st"
    using assms in_sync_count is_open_bottom by blast+
  then show ?thesis using bottom_count [of eo st] by simp
qed

lemma in_sync_Done: "in_sync eo (Done v, st) n ins esc = (n = int (count_open eo st) \<and> \<not> ins \<and> \<not> esc)"
  by simp

lemma in_sync_esc: "in_sync eo (m, st) n ins True \<Longrightarrow> ins"
  by (cases m) simp_all

lemma is_open_finalize: "is_open eo p \<Longrightarrow> finalize p = Inl SyntaxError"
proof (cases p)
  case (Pair m st)
  assume "is_open eo p"
  then show ?thesis using Pair by (cases m) auto
qed

lemma run_Err_fst: "fst p = Err \<Longrightarrow> fst (run p s) = Err"
proof (induction s arbitrary: p)
  case Nil
  then show ?case by simp
next
  case (Cons c s)
  then have "fst (step c p) = Err" by (cases p) simp
  then have "fst (run (step c p) s) = Err" by (rule Cons.IH)
  then show ?case by simp
qed

lemma run_not_Err: "fst (run p s) \<noteq> Err \<Longrightarrow> fst p \<noteq> Err"
  using run_Err_fst by blast

lemma step_Done: "step c (Done v, st) = (if json_ws c then (Done v, st) else (Err, []))"
  by simp

lemma run_Done:
  "fst (run (Done v, st) cs) \<noteq> Err \<Longrightarrow> list_all json_ws cs \<and> run (Done v, st) cs = (Done v, st)"
proof (induction cs)
  case Nil
  then show ?case by simp
next
  case (Cons c cs)
  show ?case
  proof (cases "json_ws c")
    case True
    then have r: "run (Done v, st) (c # cs) = run (Done v, st) cs"
      by (simp only: run.simps step_Done if_True)
    then show ?thesis using Cons True by (simp only: r list.pred_inject simp_thms)
  next
    case False
    then have "run (Done v, st) (c # cs) = run (Err, []) cs"
      by (simp only: run.simps step_Done if_False)
    then show ?thesis using Cons.prems by (simp only: run_Err simp_thms)
  qed
qed

lemma scan_open_along:
  assumes "pair_ok eo ec"
  shows "in_sync eo p n ins esc \<Longrightarrow> open_along eo p q \<Longrightarrow>
         scan whole eo ec i q n ins esc = None"
proof (induction q arbitrary: p n ins esc i)
  case Nil
  then show ?case by simp
next
  case (Cons c cs)
  let ?p = "step c p"
  have op: "is_open eo ?p" and oa: "open_along eo ?p cs" using Cons.prems by simp_all
  have ne: "fst ?p \<noteq> Err" using op by (rule is_open_not_Err)
  note sy = step_sync [OF Cons.prems(1) ne assms]
  show ?case
  proof (cases esc)
    case True
    then have s: "in_sync eo ?p n ins False" using sy by simp
    show ?thesis using True Cons.IH [OF s oa] by simp
  next
    case False
    show ?thesis
    proof (cases "c = 92")
      case True
      then have s: "in_sync eo ?p n ins True" using sy False by simp
      show ?thesis using True False Cons.IH [OF s oa] by simp
    next
      case c: False
      let ?ins = "next_in_string c ins"
      let ?n = "next_count eo ec c ?ins n"
      have s: "in_sync eo ?p ?n ?ins False" using sy False c by simp
      then have "0 < ?n" using op by (rule in_sync_open_pos)
      then show ?thesis
        using False c Cons.IH [OF s oa]
        by (simp add: next_count_def next_in_string_def Let_def)
    qed
  qed
qed

lemma found_at_start: "initialStructuralCharFound eo (take (Suc k) (eo # w))"
  by simp

lemma scan_closes:
  assumes pr: "pair_ok eo ec"
    and found: "\<And>k. i0 \<le> k \<Longrightarrow> initialStructuralCharFound eo (take (Suc k) whole)"
  shows "in_sync eo p n ins esc \<Longrightarrow> is_open eo p \<Longrightarrow> closes p cs \<Longrightarrow> i0 \<le> i \<Longrightarrow>
         scan whole eo ec i (cs @ rest) n ins esc = Some (i + length cs)"
proof (induction cs arbitrary: p n ins esc i)
  case Nil
  then show ?case by simp
next
  case (Cons c cs)
  let ?p = "step c p"
  have ne: "fst ?p \<noteq> Err"
    using Cons.prems(3) by (cases ?p; cases "fst ?p") auto
  note sy = step_sync [OF Cons.prems(1) ne pr]
  from step_open [OF Cons.prems(2) ne]
  consider (op) "is_open eo ?p" | (dn) v where "?p = (Done v, [])" by blast
  then show ?case
  proof cases
    case op
    then have cl: "closes ?p cs"
      using Cons.prems(3) by (cases ?p; cases "fst ?p") auto
    have le: "i0 \<le> Suc i" using Cons.prems(4) by simp
    show ?thesis
    proof (cases esc)
      case True
      then have s: "in_sync eo ?p n ins False" using sy by simp
      show ?thesis using True Cons.IH [OF s op cl le] by simp
    next
      case False
      show ?thesis
      proof (cases "c = 92")
        case True
        then have s: "in_sync eo ?p n ins True" using sy False by simp
        show ?thesis using True False Cons.IH [OF s op cl le] by simp
      next
        case c: False
        let ?ins = "next_in_string c ins"
        let ?n = "next_count eo ec c ?ins n"
        have s: "in_sync eo ?p ?n ?ins False" using sy False c by simp
        then have "0 < ?n" using op by (rule in_sync_open_pos)
        then show ?thesis
          using False c Cons.IH [OF s op cl le]
          by (simp add: next_count_def next_in_string_def Let_def)
      qed
    qed
  next
    case dn
    then have cs: "cs = []" using Cons.prems(3) by simp
    have e: "\<not> esc"
    proof
      assume esc: "esc"
      then have "in_sync eo ?p n ins False" using sy by blast
      then have "in_sync eo (Done v, []) n ins False" unfolding dn .
      moreover have "ins"
        using esc in_sync_esc [of eo "fst p" "snd p" n ins] Cons.prems(1) by simp
      ultimately show False by simp
    qed
    have c: "c \<noteq> 92"
    proof
      assume "c = 92"
      then have "in_sync eo ?p n ins True" using sy e by blast
      then have "in_sync eo (Done v, []) n ins True" unfolding dn .
      then show False by simp
    qed
    let ?ins = "next_in_string c ins"
    let ?n = "next_count eo ec c ?ins n"
    have "in_sync eo ?p ?n ?ins False" using sy e c by blast
    then have "in_sync eo (Done v, []) ?n ?ins False" unfolding dn .
    then have "?n = 0" "\<not> ?ins" by auto
    then show ?thesis
      using e c cs found [OF Cons.prems(4)]
      by (simp add: next_count_def next_in_string_def Let_def)
  qed
qed


lemma closes_step:
  "is_open eo (step c p) \<Longrightarrow> closes p (c # cs) = closes (step c p) cs"
  by (cases "step c p"; cases "fst (step c p)") auto

lemma parse_closes:
  "is_open eo p \<Longrightarrow> fst (run p cs) \<noteq> Err \<Longrightarrow> \<not> is_open eo (run p cs) \<Longrightarrow>
   cs \<noteq> [] \<Longrightarrow> \<not> json_ws (last cs) \<Longrightarrow> closes p cs \<and> (\<exists>v. run p cs = (Done v, []))"
proof (induction cs arbitrary: p)
  case Nil
  then show ?case by simp
next
  case (Cons c cs)
  let ?p = "step c p"
  have r: "run p (c # cs) = run ?p cs" by (simp only: run.simps)
  have ne: "fst ?p \<noteq> Err" using Cons.prems(2) run_not_Err unfolding r by blast
  from step_open [OF Cons.prems(1) ne]
  consider (op) "is_open eo ?p" | (dn) v where "?p = (Done v, [])" by blast
  then show ?case
  proof cases
    case op
    have cs: "cs \<noteq> []" using Cons.prems(3) op unfolding r by auto
    then have "\<not> json_ws (last cs)" using Cons.prems(5) by simp
    from Cons.IH [OF op _ _ cs this] Cons.prems(2,3)
    have "closes ?p cs \<and> (\<exists>v. run ?p cs = (Done v, []))" unfolding r by blast
    then show ?thesis unfolding r using closes_step [OF op] by blast
  next
    case dn
    have "fst (run (Done v, []) cs) \<noteq> Err" using Cons.prems(2) unfolding r dn .
    from run_Done [OF this] have ws: "list_all json_ws cs" and rd: "run (Done v, []) cs = (Done v, [])"
      by blast+
    have "cs = []"
    proof (rule ccontr)
      assume "cs \<noteq> []"
      then have "last cs \<in> set cs" "last (c # cs) = last cs" by simp_all
      then show False using ws Cons.prems(5) by (simp add: list_all_iff)
    qed
    then show ?thesis using dn by simp
  qed
qed

lemma closes_open_along:
  "is_open eo p \<Longrightarrow> closes p (q @ u) \<Longrightarrow> u \<noteq> [] \<Longrightarrow> open_along eo p q"
proof (induction q arbitrary: p)
  case Nil
  then show ?case by simp
next
  case (Cons c q)
  let ?p = "step c p"
  have cl: "closes p (c # (q @ u))" using Cons.prems(2) by simp
  then have ne: "fst ?p \<noteq> Err"
    by (cases ?p; cases "fst ?p") auto
  from step_open [OF Cons.prems(1) ne]
  consider (op) "is_open eo ?p" | (dn) v where "?p = (Done v, [])" by blast
  then show ?case
  proof cases
    case op
    then have "closes ?p (q @ u)" using cl closes_step by blast
    from Cons.IH [OF op this Cons.prems(3)] show ?thesis using op by simp
  next
    case dn
    then show ?thesis using cl Cons.prems(3) by simp
  qed
qed

lemma open_along_run: "is_open eo p \<Longrightarrow> open_along eo p q \<Longrightarrow> is_open eo (run p q)"
  by (induction q arbitrary: p) simp_all

lemma closes_run: "closes p cs \<Longrightarrow> \<exists>v. run p cs = (Done v, snd (run p cs))"
proof (induction cs arbitrary: p)
  case Nil
  then show ?case by simp
next
  case (Cons c cs)
  then show ?case
    by (cases "step c p"; cases "fst (step c p)") auto
qed

lemma pair_ok_cases: "pair_ok eo ec \<Longrightarrow> (eo = 123 \<and> ec = 125) \<or> (eo = 91 \<and> ec = 93)"
  by (simp add: pair_ok_def)

lemma run_leading_ws: "list_all json_ws w \<Longrightarrow> run (Value, st) (w @ s) = run (Value, st) s"
  by (induction w) simp_all

lemma not_found_in_ws:
  "pair_ok eo ec \<Longrightarrow> list_all json_ws w \<Longrightarrow> \<not> initialStructuralCharFound eo w"
  by (induction w) (auto simp: json_ws_def pair_ok_def)

lemma found_after_ws:
  "list_all json_ws w \<Longrightarrow> initialStructuralCharFound eo (w @ eo # x)"
  by (induction w) (auto simp: json_ws_def)

lemma found_beyond_ws:
  assumes "list_all json_ws w" "length w \<le> k"
  shows "initialStructuralCharFound eo (take (Suc k) (w @ eo # x))"
proof -
  have "take (Suc k) (w @ eo # x) = w @ eo # take (k - length w) x"
    using assms(2) by (simp add: Suc_diff_le)
  then show ?thesis using found_after_ws [OF assms(1)] by simp
qed

lemma scan_skip_ws:
  assumes pr: "pair_ok eo ec"
  shows "list_all json_ws w1 \<Longrightarrow> list_all json_ws w2 \<Longrightarrow>
         scan (w1 @ w2 @ y) eo ec (length w1) (w2 @ y) 0 False False =
         scan (w1 @ w2 @ y) eo ec (length w1 + length w2) y 0 False False"
proof (induction w2 arbitrary: w1)
  case Nil
  then show ?case by simp
next
  case (Cons c w2)
  have c: "json_ws c" and w2: "list_all json_ws w2" using Cons.prems(2) by simp_all
  have w1c: "list_all json_ws (w1 @ [c])" using Cons.prems(1) c by simp
  have "take (Suc (length w1)) (w1 @ (c # w2) @ y) = w1 @ [c]" by simp
  then have nf: "\<not> initialStructuralCharFound eo (take (Suc (length w1)) (w1 @ (c # w2) @ y))"
    using not_found_in_ws [OF pr w1c] by simp
  have ch: "c \<noteq> 92" "c \<noteq> 34" using c by (auto simp: json_ws_def)
  have "scan (w1 @ (c # w2) @ y) eo ec (length w1) ((c # w2) @ y) 0 False False =
        scan (w1 @ (c # w2) @ y) eo ec (Suc (length w1)) (w2 @ y) 0 False False"
    using ch nf c pr by (auto simp: Let_def json_ws_def pair_ok_def)
  also have "\<dots> = scan ((w1 @ [c]) @ w2 @ y) eo ec (length (w1 @ [c])) (w2 @ y) 0 False False"
    by simp
  also have "\<dots> = scan ((w1 @ [c]) @ w2 @ y) eo ec (length (w1 @ [c]) + length w2) y 0 False False"
    by (rule Cons.IH [OF w1c w2])
  finally show ?case by simp
qed

lemma start_open:
  "pair_ok eo ec \<Longrightarrow> is_open eo (step eo (Value, [])) \<and> in_sync eo (step eo (Value, [])) 1 False False"
  by (auto simp: pair_ok_def start_value_def json_ws_def)

lemma value_closes:
  assumes pr: "pair_ok eo ec" and parse: "JSON_parse (eo # J') = Inr v"
    and last: "\<not> json_ws (last (eo # J'))"
  shows "closes (step eo (Value, [])) J' \<and> run (step eo (Value, [])) J' = (Done v, [])"
proof -
  let ?p = "step eo (Value, [])"
  have op: "is_open eo ?p" using start_open [OF pr] by blast
  have fin: "finalize (run ?p J') = Inr v"
    using parse by (simp only: JSON_parse_def run.simps)
  have ne: "fst (run ?p J') \<noteq> Err"
  proof
    assume "fst (run ?p J') = Err"
    from finalize_Err [OF this] show False using fin by simp
  qed
  have nop: "\<not> is_open eo (run ?p J')"
  proof
    assume "is_open eo (run ?p J')"
    from is_open_finalize [OF this] show False using fin by simp
  qed
  have J': "J' \<noteq> []" using nop op by auto
  then have "\<not> json_ws (last J')" using last by simp
  from parse_closes [OF op ne nop J' this]
  obtain v' where cl: "closes ?p J'" and r: "run ?p J' = (Done v', [])" by blast
  then have "v' = v" using fin by simp
  then show ?thesis using cl r by simp
qed

lemma scan_value:
  assumes pr: "pair_ok eo ec" and w: "list_all json_ws w"
    and parse: "JSON_parse (eo # J') = Inr v" and last: "\<not> json_ws (last (eo # J'))"
  shows "scan (w @ (eo # J') @ rest) eo ec 0 (w @ (eo # J') @ rest) 0 False False =
         Some (length w + Suc (length J'))"
proof -
  let ?whole = "w @ (eo # J') @ rest"
  let ?p = "step eo (Value, [])"
  have ch: "eo \<noteq> 92" "eo \<noteq> 34" "eo \<noteq> ec" using pr by (auto simp: pair_ok_def)
  have "scan ?whole eo ec 0 ?whole 0 False False =
        scan ([] @ w @ (eo # J') @ rest) eo ec (length ([] :: jsstring)) (w @ (eo # J') @ rest) 0 False False"
    by simp
  also have "\<dots> = scan ([] @ w @ (eo # J') @ rest) eo ec (length ([] :: jsstring) + length w)
                      ((eo # J') @ rest) 0 False False"
    by (rule scan_skip_ws [OF pr _ w]) simp
  also have "\<dots> = scan ?whole eo ec (length w) (eo # (J' @ rest)) 0 False False"
    by simp
  also have "\<dots> = scan ?whole eo ec (Suc (length w)) (J' @ rest) 1 False False"
    using ch by (simp add: Let_def)
  also have "\<dots> = Some (Suc (length w) + length J')"
  proof (rule scan_closes [OF pr, where ?i0.0 = "length w"])
    fix k assume "length w \<le> k"
    then show "initialStructuralCharFound eo (take (Suc k) ?whole)"
      using found_beyond_ws [OF w, of k eo "J' @ rest"] by simp
  next
    show "in_sync eo ?p 1 False False" using start_open [OF pr] by blast
    show "is_open eo ?p" using start_open [OF pr] by blast
    show "closes ?p J'" using value_closes [OF pr parse last] by blast
    show "length w \<le> Suc (length w)" by simp
  qed
  finally show ?thesis by simp
qed

lemma expected_pair_value:
  assumes "pair_ok eo ec" "list_all json_ws w"
  shows "expected_pair (w @ eo # x) = Some (eo, ec)"
proof -
  have "\<not> is_space eo" using assms(1) by (auto simp: pair_ok_def is_space_def)
  moreover have "\<forall>c\<in>set w. is_space c"
    using assms(2) json_ws_is_space by (auto simp: list_all_iff)
  ultimately have "trimStart (w @ eo # x) = eo # x"
    by (simp add: trimStart_def dropWhile_append)
  then show ?thesis using assms(1) by (auto simp: expected_pair_def pair_ok_def)
qed

lemma extract_value:
  assumes pr: "pair_ok eo ec" and w: "list_all json_ws w"
    and parse: "JSON_parse (eo # J') = Inr v" and last: "\<not> json_ws (last (eo # J'))"
  shows "extractBalancedRegion (w @ (eo # J') @ rest) = Some (w @ eo # J')"
proof -
  have "expected_pair (w @ (eo # J') @ rest) = Some (eo, ec)"
    using expected_pair_value [OF pr w, of "J' @ rest"] by simp
  moreover have "take (length w + Suc (length J')) (w @ (eo # J') @ rest) = w @ eo # J'"
    by simp
  ultimately show ?thesis
    unfolding extractBalancedRegion_def using scan_value [OF pr w parse last, of rest]
    by (simp del: append.simps take_append)
qed

lemma parse_value_prefix:
  assumes pr: "pair_ok eo ec" and w: "list_all json_ws w"
    and parse: "JSON_parse (eo # J') = Inr v" and last: "\<not> json_ws (last (eo # J'))"
  shows "parse_sanitized (w @ (eo # J') @ rest) = Returns v"
proof -
  let ?p = "step eo (Value, [])"
  have r1: "run (Value, []) (w @ eo # J') = (Done v, [])"
    using run_leading_ws [OF w, of "[]" "eo # J'"] value_closes [OF pr parse last]
    by (simp only: run.simps)
  then have pj: "JSON_parse (w @ eo # J') = Inr v" by (simp add: JSON_parse_def)
  have r2: "run (Value, []) (w @ (eo # J') @ rest) = run (Done v, []) rest"
    using run_append [of "(Value, [])" "w @ eo # J'" rest] r1 by simp
  show ?thesis
  proof (cases "JSON_parse (w @ (eo # J') @ rest)")
    case (Inr v')
    then have f: "finalize (run (Done v, []) rest) = Inr v'"
      unfolding JSON_parse_def r2 .
    have "fst (run (Done v, []) rest) \<noteq> Err"
    proof
      assume "fst (run (Done v, []) rest) = Err"
      from finalize_Err [OF this] show False using f by simp
    qed
    from run_Done [OF this] have "v' = v" using f by simp
    then show ?thesis using Inr by (simp add: parse_sanitized_def)
  next
    case (Inl e)
    then show ?thesis
      using extract_value [OF pr w parse last, of rest] pj
      by (simp add: parse_sanitized_def del: append.simps)
  qed
qed

lemma extract_not_attempted:
  "(case trimStart t of [] \<Rightarrow> True | c # r \<Rightarrow> c \<noteq> 123 \<and> c \<noteq> 91) \<Longrightarrow>
   extractBalancedRegion t = None"
  by (auto simp: extractBalancedRegion_def expected_pair_def split: list.splits)

subsection \<open>Text that the sanitizer leaves alone\<close>

lemma replace_placeholders_no_lines:
  "\<forall>c\<in>set t. \<not> is_line_terminator c \<Longrightarrow> replace_placeholders False t = t"
  by (induction t) simp_all

lemma replace_junk_prefixes_no_lines:
  "\<forall>c\<in>set t. \<not> is_line_terminator c \<Longrightarrow> replace_junk_prefixes False t = t"
  by (induction t) simp_all

lemma match_placeholder_hd:
  "\<not> is_space c \<Longrightarrow> \<not> is_alpha c \<Longrightarrow> c \<noteq> 95 \<Longrightarrow> match_placeholder (c # cs) = None"
  by (simp add: match_placeholder_def)

lemma match_junk_prefix_hd:
  "\<not> is_space c \<Longrightarrow> \<not> is_alpha c \<Longrightarrow> match_junk_prefix (c # cs) = None"
  by (simp add: match_junk_prefix_def)

lemma replace_placeholders_unmatched:
  assumes "\<forall>c\<in>set t. \<not> is_line_terminator c" "match_placeholder t = None"
  shows "replace_placeholders True t = t"
  using assms by (cases t) (simp_all add: replace_placeholders_no_lines)

lemma replace_junk_prefixes_unmatched:
  assumes "\<forall>c\<in>set t. \<not> is_line_terminator c" "match_junk_prefix t = None"
  shows "replace_junk_prefixes True t = t"
  using assms by (cases t) (simp_all add: replace_junk_prefixes_no_lines)

lemma split_lines_single: "10 \<notin> set t \<Longrightarrow> split_lines t = [t]"
  by (induction t) simp_all

lemma collapse_single: "10 \<notin> set t \<Longrightarrow> collapse_blank_lines t = t"
  by (induction t) simp_all

lemma no_lines_no_newline: "\<forall>c\<in>set t. \<not> is_line_terminator c \<Longrightarrow> 10 \<notin> set t"
  by (auto simp: is_line_terminator_def)

lemma sanitize_lines_fixed:
  assumes nl: "\<forall>c\<in>set t. \<not> is_line_terminator c"
    and tr: "trim t = t"
    and m1: "match_placeholder t = None" and m2: "match_junk_prefix t = None"
    and k: "keep_line t"
  shows "sanitize_lines t = t"
  using no_lines_no_newline [OF nl]
  by (simp add: sanitize_lines_def replace_placeholders_unmatched [OF nl m1]
      replace_junk_prefixes_unmatched [OF nl m2] split_lines_single k collapse_single tr)

lemma keep_line_structural:
  "trim t = t \<Longrightarrow> t \<noteq> [] \<Longrightarrow> hd t \<in> {123, 125, 91, 93, 44, 34} \<Longrightarrow> keep_line t"
  by (simp add: keep_line_def)

lemma sanitize_fixed:
  assumes nl: "\<forall>c\<in>set t. \<not> is_line_terminator c"
    and tr: "trim t = t" and ne: "t \<noteq> []"
    and hd: "hd t = 123 \<or> hd t = 91 \<or> hd t = 34"
  shows "sanitize t = t"
proof -
  obtain c cs where t: "t = c # cs" using ne by (cases t) auto
  have c: "c = 123 \<or> c = 91 \<or> c = 34" using hd t by simp
  then have cc: "\<not> is_space c" "\<not> is_alpha c" "c \<noteq> 95" "c \<noteq> 96"
    by (auto simp: is_space_def is_alpha_def)
  have u: "unwrap_fence t = t" using unwrap_fence_hd [of t] t cc by simp
  have "sanitize_lines t = t"
    using nl tr
  proof (rule sanitize_lines_fixed)
    show "match_placeholder t = None" unfolding t using cc(1,2,3) by (rule match_placeholder_hd)
    show "match_junk_prefix t = None" unfolding t using cc(1,2) by (rule match_junk_prefix_hd)
    show "keep_line t" using tr ne hd by (auto intro: keep_line_structural)
  qed
  then show ?thesis by (simp add: sanitize_def tr u)
qed

subsection \<open>Truncated objects\<close>

lemma trimEnd_prefix: "\<exists>s. T = trimEnd T @ s"
proof -
  have "rev T = takeWhile is_space (rev T) @ dropWhile is_space (rev T)" by simp
  then have "T = rev (dropWhile is_space (rev T)) @ rev (takeWhile is_space (rev T))"
    by (metis rev_append rev_rev_ident)
  then show ?thesis unfolding trimEnd_def by blast
qed

lemma open_along_prefix: "open_along eo p (a @ b) \<Longrightarrow> open_along eo p a"
  by (induction a arbitrary: p) simp_all

lemma truncated_object_open:
  assumes parse: "JSON_parse (123 # T' @ u) = Inr v" and u: "u \<noteq> []"
    and last: "\<not> json_ws (last u)"
  shows "open_along 123 (step 123 (Value, [])) (trimEnd T')"
proof -
  have pr: "pair_ok 123 125" by (simp add: pair_ok_def)
  have "\<not> json_ws (last (123 # T' @ u))" using u last by simp
  from value_closes [OF pr parse this]
  have cl: "closes (step 123 (Value, [])) (T' @ u)" by blast
  have op: "is_open 123 (step 123 (Value, []))" using start_open [OF pr] by blast
  from closes_open_along [OF op cl u] have "open_along 123 (step 123 (Value, [])) T'" .
  then show ?thesis using trimEnd_prefix [of T'] open_along_prefix by metis
qed

lemma open_text_fails:
  assumes oa: "open_along 123 (step 123 (Value, [])) r"
  shows "JSON_parse (123 # r) = Inl SyntaxError \<and> extractBalancedRegion (123 # r) = None"
proof
  have pr: "pair_ok 123 125" by (simp add: pair_ok_def)
  have op: "is_open 123 (step 123 (Value, []))" using start_open [OF pr] by blast
  have "is_open 123 (run (step 123 (Value, [])) r)" using open_along_run [OF op oa] .
  from is_open_finalize [OF this]
  show "JSON_parse (123 # r) = Inl SyntaxError" by (simp only: JSON_parse_def run.simps)
  have e: "expected_pair (123 # r) = Some (123, 125)"
    using expected_pair_value [OF pr, of "[]" r] by simp
  have sy: "in_sync 123 (step 123 (Value, [])) 1 False False" using start_open [OF pr] by blast
  have "scan (123 # r) 123 125 0 (123 # r) 0 False False =
        scan (123 # r) 123 125 (Suc 0) r 1 False False"
    by (simp add: Let_def)
  also have "\<dots> = None" using scan_open_along [OF pr sy oa] .
  finally show "extractBalancedRegion (123 # r) = None"
    by (simp add: extractBalancedRegion_def e)
qed

subsection \<open>Well-formed JSON on one line\<close>


lemma start_value_space: "is_space a \<Longrightarrow> start_value a st = (Err, [])"
  by (auto simp: start_value_def is_space_def)

lemma num_step_space: "is_space a \<Longrightarrow> num_step ph acc a = None"
  by (cases acc; cases ph) (auto simp: is_space_def is_digit_def)


lemma push_value_lit_ok: "lit_ok (push_value v st)"
  by (induction v st rule: push_value.induct) simp_all

lemma close_array_lit_ok: "lit_ok (close_array st)"
  by (induction st rule: close_array.induct) (simp_all add: push_value_lit_ok)

lemma close_object_lit_ok: "lit_ok (close_object st)"
  by (induction st rule: close_object.induct) (simp_all add: push_value_lit_ok)

lemma end_string_lit_ok: "lit_ok (end_string k s st)"
  by (induction k s st rule: end_string.induct) (simp_all add: push_value_lit_ok)

lemma start_value_lit_ok: "lit_ok (start_value c st)"
  by (simp add: start_value_def is_alpha_def)

lemma token_step_lit_ok: "token_mode m \<Longrightarrow> lit_ok (token_step c (m, st))"
  by (cases m)
     (auto simp: start_value_lit_ok close_array_lit_ok close_object_lit_ok
        split: list.splits frame.splits)

lemma step_lit_ok: "lit_ok p \<Longrightarrow> lit_ok (step c p)"
proof (cases p)
  case (Pair m st)
  assume ok: "lit_ok p"
  show ?thesis
  proof (cases m)
    case (InStr k s)
    then show ?thesis using Pair by (simp add: end_string_lit_ok)
  next
    case (InEsc k s)
    then show ?thesis using Pair by simp
  next
    case (InHex k s x y)
    then show ?thesis using Pair by (simp split: option.splits)
  next
    case (InLit r w)
    then show ?thesis using Pair ok by (auto simp: push_value_lit_ok split: list.splits)
  next
    case (InNum ph acc)
    obtain m' st' where pv: "push_value (JNum (num_value acc)) st = (m', st')"
      by (cases "push_value (JNum (num_value acc)) st")
    have "m' = Err \<or> token_mode m'"
      using push_value_token_mode [of "JNum (num_value acc)" st] pv by auto
    then have "lit_ok (token_step c (m', st'))"
      using token_step_lit_ok by auto
    then show ?thesis using Pair InNum pv by (auto split: option.splits)
  next
    case Err
    then show ?thesis using Pair by simp
  qed (use Pair token_step_lit_ok [of m c st] in simp_all)
qed




























subsection \<open>Fence markers and single lines through the stages\<close>

lemma no_fence_Nil [simp]: "no_fence []"
  by (simp add: no_fence_def fence_def)

lemma fence_length: "length fence = 3"
  by (simp add: fence_def)

lemma no_fence_Cons: "no_fence (c # cs) = (take 3 (c # cs) \<noteq> fence \<and> no_fence cs)"
  by (simp only: no_fence_def includes_str.simps fence_length de_Morgan_disj)

lemma no_fence_Cons_other: "c \<noteq> 96 \<Longrightarrow> no_fence (c # cs) = no_fence cs"
  by (simp add: no_fence_Cons fence_def)

lemma take3_append_sep:
  "c \<noteq> 96 \<Longrightarrow> (take 3 (l @ c # rest) = fence) = (take 3 l = fence)"
proof (cases l)
  case Nil
  assume "c \<noteq> 96"
  then show ?thesis using Nil by (simp add: fence_def)
next
  case l1: (Cons a l1)
  assume c: "c \<noteq> 96"
  show ?thesis
  proof (cases l1)
    case Nil
    then show ?thesis using l1 c by (auto simp: fence_def)
  next
    case l2: (Cons b l2)
    show ?thesis
    proof (cases l2)
      case Nil
      then show ?thesis using l1 l2 c by (auto simp: fence_def)
    next
      case (Cons d l3)
      then show ?thesis using l1 l2 by simp
    qed
  qed
qed

lemma no_fence_sep: "c \<noteq> 96 \<Longrightarrow> no_fence (l @ c # rest) = (no_fence l \<and> no_fence rest)"
proof (induction l)
  case Nil
  then show ?case by (simp add: no_fence_Cons_other)
next
  case (Cons a l)
  have "take 3 ((a # l) @ c # rest) = fence \<longleftrightarrow> take 3 (a # l) = fence"
    using Cons.prems by (rule take3_append_sep)
  then show ?case using Cons by (auto simp: no_fence_Cons simp del: take_Cons')
qed

lemma no_fence_appendD1: "no_fence (a @ b) \<Longrightarrow> no_fence a"
proof (induction a)
  case Nil
  then show ?case by simp
next
  case (Cons x a)
  have "take 3 (x # a) = fence \<Longrightarrow> take 3 ((x # a) @ b) = fence"
    by (cases a; cases "tl a"; cases "tl (tl a)") (auto simp: fence_def)
  then show ?case using Cons by (auto simp: no_fence_Cons simp del: take_Cons')
qed

lemma no_fence_appendD2: "no_fence (a @ b) \<Longrightarrow> no_fence b"
  by (induction a) (auto simp: no_fence_Cons simp del: take_Cons')

lemma no_fence_drop: "no_fence s \<Longrightarrow> no_fence (drop n s)"
  by (metis append_take_drop_id no_fence_appendD2)

lemma no_fence_take: "no_fence s \<Longrightarrow> no_fence (take n s)"
  by (metis append_take_drop_id no_fence_appendD1)

lemma no_fence_dropWhile: "no_fence s \<Longrightarrow> no_fence (dropWhile P s)"
  by (metis takeWhile_dropWhile_id no_fence_appendD2)

lemma no_fence_trimEnd: "no_fence s \<Longrightarrow> no_fence (trimEnd s)"
  using trimEnd_prefix [of s] no_fence_appendD1 by metis

lemma no_fence_trim: "no_fence s \<Longrightarrow> no_fence (trim s)"
  by (simp add: trim_def trimStart_def no_fence_trimEnd no_fence_dropWhile)

lemma last_line_end_Some:
  "last_line_end w = Some k \<Longrightarrow> k < length w \<and> is_line_terminator (w ! k)"
proof (induction w arbitrary: k)
  case Nil
  then show ?case by simp
next
  case (Cons c w)
  then show ?case by (cases "last_line_end w") (auto split: if_splits)
qed

lemma spaces_to_eol_Some:
  assumes "spaces_to_eol t = Some k"
  shows "k \<le> length t \<and> (k = length t \<or> is_line_terminator (t ! k))"
proof (cases "dropWhile is_space t = []")
  case True
  have "spaces_to_eol t = Some (length t)"
    unfolding spaces_to_eol_def using True by (simp only: if_True simp_thms)
  then show ?thesis using assms by simp
next
  case False
  have "spaces_to_eol t = last_line_end (takeWhile is_space t)"
    unfolding spaces_to_eol_def using False by (simp only: if_False simp_thms)
  then have l: "last_line_end (takeWhile is_space t) = Some k"
    using assms by simp
  from last_line_end_Some [OF l]
  have k: "k < length (takeWhile is_space t)" and lt: "is_line_terminator (takeWhile is_space t ! k)"
    by blast+
  have "takeWhile is_space t ! k = t ! k" using k by (rule takeWhile_nth)
  moreover have "length (takeWhile is_space t) \<le> length t" by (rule length_takeWhile_le)
  ultimately show ?thesis using k lt by simp
qed

lemma placeholder_tail_Some:
  assumes "placeholder_tail t = Some k"
  shows "k \<le> length t \<and> (k = length t \<or> is_line_terminator (t ! k))"
proof (cases "dropWhile is_space t")
  case Nil
  have "placeholder_tail t = spaces_to_eol t"
    unfolding placeholder_tail_def Nil by (simp only: list.case)
  then show ?thesis using assms spaces_to_eol_Some by simp
next
  case (Cons c r)
  have pt: "placeholder_tail t =
          (if c = 44 then
            (case spaces_to_eol r of
               Some k \<Rightarrow> Some (length (takeWhile is_space t) + 1 + k)
             | None \<Rightarrow> spaces_to_eol t)
          else spaces_to_eol t)"
    unfolding placeholder_tail_def Cons by (simp only: list.case)
  show ?thesis
  proof (cases "c = 44 \<and> spaces_to_eol r \<noteq> None")
    case True
    then obtain k' where k': "spaces_to_eol r = Some k'" by auto
    let ?w = "takeWhile is_space t"
    have t: "t = ?w @ c # r" using Cons by (metis takeWhile_dropWhile_id)
    have k: "k = length ?w + 1 + k'"
      using assms True k' unfolding pt by simp
    from spaces_to_eol_Some [OF k']
    have b: "k' \<le> length r" "k' = length r \<or> is_line_terminator (r ! k')" by blast+
    have len: "length t = length ?w + 1 + length r"
      using arg_cong [OF t, of length] by simp
    have "t ! k = r ! k'"
    proof -
      have "t ! k = (?w @ c # r) ! (length ?w + (1 + k'))" using t k by (simp add: add.assoc)
      then show ?thesis by (simp only: nth_append_length_plus) simp
    qed
    then show ?thesis using b k len by auto
  next
    case False
    then have "spaces_to_eol t = Some k"
      using assms unfolding pt by (auto split: if_splits option.splits)
    then show ?thesis by (rule spaces_to_eol_Some)
  qed
qed

lemma dropWhile_suffix: "\<exists>pre. s = pre @ dropWhile P s"
  by (metis takeWhile_dropWhile_id)

lemma match_placeholder_Some:
  assumes "match_placeholder s = Some n"
  shows "n \<le> length s \<and> (n = length s \<or> is_line_terminator (s ! n))"
proof -
  from assms obtain c r d r3 a b r5 k where
    s1: "dropWhile is_space s = c # r" and s2: "dropWhile is_word r = d # r3"
    and s3: "dropWhile is_space r3 = a # b # r5"
    and tail: "placeholder_tail r5 = Some k" and n: "n = length s - length r5 + k"
    by (auto simp: match_placeholder_def simp del: dropWhile_eq_Nil_conv
        split: list.splits if_splits option.splits)
  obtain p1 where p1: "s = p1 @ c # r" using dropWhile_suffix [of s is_space] s1 by auto
  obtain p2 where p2: "r = p2 @ d # r3" using dropWhile_suffix [of r is_word] s2 by auto
  obtain p3 where p3: "r3 = p3 @ a # b # r5" using dropWhile_suffix [of r3 is_space] s3 by auto
  let ?pre = "p1 @ c # p2 @ d # p3 @ [a, b]"
  have s: "s = ?pre @ r5" using p1 p2 p3 by simp
  have n': "n = length ?pre + k"
    using n arg_cong [OF s, of length] by simp
  from placeholder_tail_Some [OF tail]
  have b: "k \<le> length r5" "k = length r5 \<or> is_line_terminator (r5 ! k)" by blast+
  have "s ! n = r5 ! k"
    by (subst s, subst n') (simp only: nth_append_length_plus)
  moreover have "length s = length ?pre + length r5"
    using arg_cong [OF s, of length] by simp
  ultimately show ?thesis using b n' by auto
qed

lemma line_terminator_not_backtick: "is_line_terminator c \<Longrightarrow> c \<noteq> 96"
  by (auto simp: is_line_terminator_def)

lemma space_not_backtick: "is_space c \<Longrightarrow> c \<noteq> 96"
  by (auto simp: is_space_def)

lemma no_fence_snoc_shift: "no_fence ((p @ [c]) @ X) = no_fence (p @ c # X)"
  by simp

lemma no_fence_cut:
  assumes nf: "no_fence (p @ s)" and n: "n \<le> length s"
    and e: "n = length s \<or> is_line_terminator (s ! n)"
  shows "no_fence (p @ drop n s)"
proof (cases "n = length s")
  case True
  then show ?thesis using nf no_fence_appendD1 by simp
next
  case False
  then have lt: "is_line_terminator (s ! n)" and n': "n < length s" using e n by auto
  then have s: "s = take n s @ (s ! n) # drop (Suc n) s"
    by (simp add: id_take_nth_drop)
  have d: "drop n s = (s ! n) # drop (Suc n) s" using n' by (simp add: Cons_nth_drop_Suc)
  have nb: "s ! n \<noteq> 96" using lt by (rule line_terminator_not_backtick)
  have "no_fence ((p @ take n s) @ (s ! n) # drop (Suc n) s)" using nf s by (metis append_assoc)
  then have "no_fence (p @ take n s)" "no_fence (drop (Suc n) s)"
    using no_fence_sep [OF nb] by blast+
  then have "no_fence p" "no_fence (drop (Suc n) s)" using no_fence_appendD1 by blast+
  then show ?thesis unfolding d using no_fence_sep [OF nb] by blast
qed

lemma replace_placeholders_no_fence:
  "no_fence (p @ s) \<Longrightarrow> no_fence (p @ replace_placeholders b s)"
proof (induction b s arbitrary: p rule: replace_placeholders.induct)
  case (1 bol)
  then show ?case by simp
next
  case (2 bol c cs)
  let ?m = "if bol then match_placeholder (c # cs) else None"
  show ?case
  proof (cases ?m)
    case None
    have "no_fence ((p @ [c]) @ cs)" using "2.prems" by simp
    from "2.IH"(1) [OF None this] show ?thesis using None by simp
  next
    case (Some n)
    show ?thesis
    proof (cases n)
      case 0
      have "no_fence ((p @ [c]) @ cs)" using "2.prems" by simp
      from "2.IH"(2) [OF Some 0 this] show ?thesis using Some 0 by simp
    next
      case (Suc k)
      have m: "match_placeholder (c # cs) = Some (Suc k)"
        using Some Suc by (auto split: if_splits)
      from match_placeholder_Some [OF m]
      have "no_fence (p @ drop (Suc k) (c # cs))"
        using no_fence_cut [OF "2.prems", of "Suc k"] by blast
      then have "no_fence (p @ drop k cs)" by simp
      from "2.IH"(3) [OF Some Suc this] show ?thesis using Some Suc by simp
    qed
  qed
qed

lemma match_junk_prefix_Some:
  "match_junk_prefix s = Some (j, k) \<Longrightarrow> take j s = takeWhile is_space s"
  by (auto simp: match_junk_prefix_def Let_def simp del: dropWhile_eq_Nil_conv
      split: list.splits if_splits)
     (metis append_eq_conv_conj takeWhile_dropWhile_id)+

lemma replace_junk_prefixes_no_fence:
  "no_fence (p @ s) \<Longrightarrow> no_fence (p @ replace_junk_prefixes b s)"
proof (induction b s arbitrary: p rule: replace_junk_prefixes.induct)
  case (1 bol)
  then show ?case by simp
next
  case (2 bol c cs)
  let ?m = "if bol then match_junk_prefix (c # cs) else None"
  show ?case
  proof (cases ?m)
    case None
    have "no_fence ((p @ [c]) @ cs)" using "2.prems" by simp
    from "2.IH"(1) [OF None this] show ?thesis using None by simp
  next
    case (Some x)
    obtain j k where x: "x = (j, k)" by (cases x)
    have "no_fence (drop k cs)"
      using "2.prems" no_fence_appendD2 no_fence_drop by (metis drop_Suc_Cons)
    then have "no_fence ([] @ drop k cs)" by simp
    from "2.IH"(2) [OF Some x [symmetric] this]
    have y: "no_fence (replace_junk_prefixes False (drop k cs))" by simp
    have "no_fence (p @ take j (c # cs))"
      using "2.prems" by (metis append_assoc append_take_drop_id no_fence_appendD1)
    then have "no_fence ((p @ take j (c # cs)) @ 34 # replace_junk_prefixes False (drop k cs))"
      using y by (simp only: no_fence_sep [of 34 "p @ take j (c # cs)"] simp_thms)
    then show ?thesis using Some x by simp
  qed
qed

lemma collapse_no_fence: "no_fence (p @ s) \<Longrightarrow> no_fence (p @ collapse_blank_lines s)"
proof (induction s arbitrary: p rule: collapse_blank_lines.induct)
  case 1
  then show ?case by simp
next
  case (2 c cs)
  show ?case
  proof (cases "c = 10")
    case False
    have "no_fence ((p @ [c]) @ cs)" using "2.prems" by simp
    from "2.IH"(3) [OF False this] show ?thesis using False by simp
  next
    case True
    have nf: "no_fence p" "no_fence cs"
      using "2.prems" no_fence_sep [of 10 p cs] True by simp_all
    show ?thesis
    proof (cases "last_newline (takeWhile is_space cs)")
      case None
      have "no_fence ((p @ [c]) @ cs)" using "2.prems" by simp
      from "2.IH"(1) [OF True None this] show ?thesis using True None by simp
    next
      case (Some k)
      have "no_fence ([] @ drop (Suc k) cs)" using nf(2) no_fence_drop by simp
      from "2.IH"(2) [OF True Some this]
      have "no_fence (collapse_blank_lines (drop (Suc k) cs))" by simp
      then show ?thesis using True Some nf(1) no_fence_sep [of 10 p] by simp
    qed
  qed
qed

lemma join_lines_Cons: "ls \<noteq> [] \<Longrightarrow> join_lines (l # ls) = l @ 10 # join_lines ls"
  by (cases ls) simp_all

lemma no_fence_join: "no_fence (join_lines ls) = (\<forall>l\<in>set ls. no_fence l)"
proof (induction ls rule: join_lines.induct)
  case (3 l v va)
  have "no_fence (join_lines (l # v # va)) = (no_fence l \<and> no_fence (join_lines (v # va)))"
    using no_fence_sep [of 10 l] by simp
  then show ?case using 3 by simp
qed simp_all

lemma join_split_lines: "join_lines (split_lines s) = s"
proof (induction s)
  case Nil
  then show ?case by simp
next
  case (Cons c s)
  have ne: "split_lines s \<noteq> []" by (cases s) (auto split: list.splits)
  show ?case
  proof (cases "c = 10")
    case True
    then show ?thesis using Cons ne by (simp add: join_lines_Cons)
  next
    case False
    obtain l ls where sl: "split_lines s = l # ls" using ne by (cases "split_lines s") auto
    then have "join_lines ((c # l) # ls) = c # join_lines (l # ls)"
      by (cases ls) simp_all
    then show ?thesis using False sl Cons by simp
  qed
qed

lemma filter_lines_no_fence:
  "no_fence s \<Longrightarrow> no_fence (join_lines (filter keep_line (split_lines s)))"
proof -
  assume "no_fence s"
  then have "\<forall>l\<in>set (split_lines s). no_fence l"
    using no_fence_join [of "split_lines s"] join_split_lines [of s] by simp
  then show ?thesis by (simp add: no_fence_join)
qed

lemma sanitize_lines_no_fence: "no_fence s \<Longrightarrow> no_fence (sanitize_lines s)"
proof -
  assume "no_fence s"
  then have "no_fence ([] @ replace_placeholders True s)"
    using replace_placeholders_no_fence [of "[]" s True] by simp
  then have "no_fence ([] @ replace_junk_prefixes True (replace_placeholders True s))"
    by (rule replace_junk_prefixes_no_fence)
  then have "no_fence (join_lines (filter keep_line (split_lines
               (replace_junk_prefixes True (replace_placeholders True s)))))"
    using filter_lines_no_fence by simp
  then have "no_fence ([] @ collapse_blank_lines (join_lines (filter keep_line (split_lines
               (replace_junk_prefixes True (replace_placeholders True s))))))"
    using collapse_no_fence [of "[]"] by simp
  then show ?thesis by (simp add: sanitize_lines_def no_fence_trim)
qed

lemma no_fence_take3: "no_fence t \<Longrightarrow> take 3 t \<noteq> fence"
  by (cases t) (auto simp: no_fence_Cons fence_def simp del: take_Cons')

lemma unwrap_fence_no_fence_text: "no_fence t \<Longrightarrow> unwrap_fence t = t"
  by (simp add: unwrap_fence_no_fence no_fence_take3)

lemma fence_group2_wrapped:
  "fence_group2 (fence @ m @ fence) = Some (trimEnd (dropWhile is_space (dropWhile is_word m)))"
proof -
  let ?F = "fence @ m @ fence"
  have len: "length ?F = length m + 6" by (simp add: fence_def)
  have six: "6 \<le> length ?F" unfolding len by simp
  have t3: "take 3 ?F = fence" by (simp add: fence_def)
  have "?F = (fence @ m) @ fence" by simp
  moreover have "length ?F - 3 = length (fence @ m)" unfolding len by (simp add: fence_def)
  ultimately have d3: "drop (length ?F - 3) ?F = fence" by (metis append_eq_conv_conj)
  have "drop 3 ?F = m @ fence" by (simp add: fence_def)
  moreover have "length ?F - 6 = length m" unfolding len by simp
  ultimately have mid: "take (length ?F - 6) (drop 3 ?F) = m" by simp
  show ?thesis
    by (simp only: fence_group2_def t3 d3 mid six simp_thms if_True)
qed

lemma unwrap_fence_wrapped_no_fence:
  assumes "no_fence m"
  shows "no_fence (unwrap_fence (fence @ m @ fence)) \<or>
         trimEnd (dropWhile is_space (dropWhile is_word m)) = []"
proof -
  let ?g = "trimEnd (dropWhile is_space (dropWhile is_word m))"
  have "no_fence ?g" using assms by (simp add: no_fence_trimEnd no_fence_dropWhile)
  then have "no_fence (trim ?g)" by (rule no_fence_trim)
  then show ?thesis by (auto simp: unwrap_fence_def fence_group2_wrapped)
qed

lemma group2_nonempty:
  "dropWhile is_space r \<noteq> [] \<Longrightarrow> trimEnd (dropWhile is_space r) \<noteq> []"
proof -
  assume ne: "dropWhile is_space r \<noteq> []"
  then obtain d ds where d: "dropWhile is_space r = d # ds" by (cases "dropWhile is_space r") auto
  then have "\<not> is_space d" by (metis hd_dropWhile list.sel(1) ne)
  then show ?thesis unfolding d by (simp add: trimEnd_Cons)
qed

lemma replace_placeholders_one_line:
  assumes nl: "\<forall>c\<in>set t. \<not> is_line_terminator c"
  shows "replace_placeholders True t = t \<or> replace_placeholders True t = []"
proof (cases t)
  case Nil
  then show ?thesis by simp
next
  case (Cons c cs)
  have rest: "replace_placeholders False cs = cs"
    using nl Cons by (simp add: replace_placeholders_no_lines)
  have c: "\<not> is_line_terminator c" using nl Cons by simp
  show ?thesis
  proof (cases "match_placeholder (c # cs)")
    case None
    then show ?thesis using Cons rest c by simp
  next
    case (Some n)
    show ?thesis
    proof (cases n)
      case 0
      then show ?thesis using Cons Some rest c by simp
    next
      case (Suc k)
      from match_placeholder_Some [OF Some]
      have "n \<le> length t" "n = length t \<or> is_line_terminator (t ! n)" using Cons by simp_all
      then have "n = length t" using nl nth_mem [of n t] by (cases "n = length t") auto
      then have "drop k cs = []" using Suc Cons by simp
      then show ?thesis using Cons Some Suc by simp
    qed
  qed
qed

lemma replace_junk_prefixes_one_line:
  assumes nl: "\<forall>c\<in>set t. \<not> is_line_terminator c" and ne: "t \<noteq> []"
    and hd: "\<not> is_space (hd t)"
  shows "replace_junk_prefixes True t = t \<or>
         (\<exists>q. replace_junk_prefixes True t = 34 # q \<and> set q \<subseteq> set t)"
proof -
  obtain c cs where t: "t = c # cs" using ne by (cases t) auto
  have c: "\<not> is_line_terminator c" "\<not> is_space c" using nl hd t by simp_all
  have rest: "replace_junk_prefixes False cs = cs"
    using nl t by (simp add: replace_junk_prefixes_no_lines)
  show ?thesis
  proof (cases "match_junk_prefix (c # cs)")
    case None
    then show ?thesis using t rest c by simp
  next
    case (Some x)
    obtain j k where x: "x = (j, k)" by (cases x)
    from match_junk_prefix_Some [OF Some [unfolded x]]
    have "take j (c # cs) = []" using c by simp
    moreover have "replace_junk_prefixes False (drop k cs) = drop k cs"
      using nl t by (intro replace_junk_prefixes_no_lines) (auto dest: in_set_dropD)
    ultimately have "replace_junk_prefixes True t = 34 # drop k cs"
      using t Some x by simp
    moreover have "set (drop k cs) \<subseteq> set t" using t by (auto dest: in_set_dropD)
    ultimately show ?thesis by blast
  qed
qed

lemma keep_line_quote: "keep_line (34 # q)"
proof -
  have "trim (34 # q) = 34 # trimEnd q" by (rule trim_Cons) (simp add: is_space_def)
  then show ?thesis by (simp add: keep_line_def)
qed

lemma lines_of_one_line:
  assumes "10 \<notin> set s"
  shows "trim (collapse_blank_lines (join_lines (filter keep_line (split_lines s)))) =
         (if keep_line s then trim s else [])"
  using assms by (simp add: split_lines_single collapse_single trim_Nil)

lemma sanitize_lines_emptied:
  "replace_placeholders True t = [] \<Longrightarrow> sanitize_lines t = []"
proof -
  assume e: "replace_placeholders True t = []"
  have k: "keep_line []" by (simp add: keep_line_def trim_Nil)
  show ?thesis
    unfolding sanitize_lines_def Let_def e
    by (simp only: replace_junk_prefixes.simps split_lines.simps filter.simps k if_True
        join_lines.simps collapse_blank_lines.simps trim_Nil)
qed

lemma sanitize_lines_kept:
  assumes "replace_placeholders True t = t" "replace_junk_prefixes True t = t"
    "10 \<notin> set t" "trim t = t"
  shows "sanitize_lines t = (if keep_line t then t else [])"
  unfolding sanitize_lines_def Let_def assms(1) assms(2)
  using lines_of_one_line [OF assms(3)] assms(4) by (simp only:)

lemma sanitize_lines_junk:
  assumes "replace_placeholders True t = t" "replace_junk_prefixes True t = 34 # q"
    "10 \<notin> set (34 # q)"
  shows "sanitize_lines t = trim (34 # q)"
  unfolding sanitize_lines_def Let_def assms(1) assms(2)
  using lines_of_one_line [OF assms(3)] keep_line_quote [of q] by (simp only: if_True)

lemma dropped_line_not_idempotent:
  \<open>sanitize (js ''true\<newline>:x:\<newline>"a"'') = js ''true\<newline>"a"'' \<and>
   sanitize (sanitize (js ''true\<newline>:x:\<newline>"a"'')) = js ''"a"''\<close>
  by code_simp

subsection \<open>The two regular expressions on text that the reader accepts\<close>

lemma token_step_space:
  "token_mode m \<Longrightarrow> is_space c \<Longrightarrow>
   token_step c (m, st) = (if json_ws c then (m, st) else (Err, []))"
  using start_value_space [of c st]
  by (cases m) (auto simp: is_space_def)

lemma step_token_mode: "token_mode m \<Longrightarrow> step c (m, st) = token_step c (m, st)"
  by (cases m) simp_all

lemma step_line_end_token:
  assumes c: "c = 10 \<or> c = 13" and ok: "lit_ok p" and ne: "fst (step c p) \<noteq> Err"
  shows "token_mode (fst (step c p))"
proof (cases p)
  case (Pair m st)
  have sp: "is_space c" "json_ws c" using c by (auto simp: is_space_def json_ws_def)
  show ?thesis
  proof (cases m)
    case (InStr k s)
    then show ?thesis using ne Pair c by auto
  next
    case (InEsc k s)
    then show ?thesis using ne Pair c by auto
  next
    case (InHex k s x y)
    then show ?thesis using ne Pair c by (auto simp: hex_digit_def is_digit_def)
  next
    case (InLit r w)
    then show ?thesis
      using ne Pair c ok by (auto simp: is_alpha_def split: list.splits if_splits)
  next
    case (InNum ph acc)
    obtain m' st' where pv: "push_value (JNum (num_value acc)) st = (m', st')"
      by (cases "push_value (JNum (num_value acc)) st")
    have st: "step c p = (if accepting ph then token_step c (m', st') else (Err, []))"
      using Pair InNum num_step_space [OF sp(1)] pv by simp
    then have acc: "accepting ph" using ne by (auto split: if_splits)
    have m': "m' \<noteq> Err" using st acc ne by (cases m') auto
    then have tm: "token_mode m'"
      using push_value_token_mode [of "JNum (num_value acc)" st] pv by simp
    then have "token_step c (m', st') = (m', st')"
      using token_step_space [OF tm sp(1)] sp(2) by simp
    then show ?thesis using st acc tm by simp
  next
    case Err
    then show ?thesis using ne Pair by simp
  qed (use Pair sp token_step_space [of m c st] in simp_all)
qed

lemma run_spaces:
  "token_mode (fst p) \<Longrightarrow> list_all is_space w \<Longrightarrow> fst (run p w) \<noteq> Err \<Longrightarrow>
   run p w = p \<and> list_all json_ws w"
proof (induction w arbitrary: p)
  case Nil
  then show ?case by simp
next
  case (Cons c w)
  obtain m st where p: "p = (m, st)" by (cases p)
  have tm: "token_mode m" using Cons.prems(1) p by simp
  have sp: "is_space c" using Cons.prems(2) by simp
  have st: "step c p = (if json_ws c then p else (Err, []))"
    using token_step_space [OF tm sp, of st] step_token_mode [OF tm, of c st] p by simp
  have "fst (step c p) \<noteq> Err"
    using Cons.prems(3) run_not_Err [of "step c p" w] by simp
  then have ws: "json_ws c" and same: "step c p = p" using st by (auto split: if_splits)
  have "run p w = p \<and> list_all json_ws w"
    using Cons.IH [of p] Cons.prems same by simp
  then show ?case using same ws by simp
qed

lemma zone_enter:
  assumes "token_mode (fst p)" "is_alpha c \<or> c = 95" "fst (step c p) \<noteq> Err"
  shows "lit_zone (step c p)"
proof -
  obtain m st where p: "p = (m, st)" by (cases p)
  have nws: "\<not> json_ws c" using assms(2) by (auto simp: json_ws_def is_alpha_def)
  have sv: "fst (start_value c st) \<noteq> Err \<Longrightarrow> lit_zone (start_value c st)"
    using assms(2) by (auto simp: start_value_def is_alpha_def split: if_splits)
  show ?thesis
    using assms p nws sv
    by (cases m) (auto simp: is_alpha_def split: if_splits)
qed

lemma push_value_zone: "fst (push_value v st) \<noteq> Err \<Longrightarrow> lit_zone (push_value v st)"
  by (induction v st rule: push_value.induct) simp_all

lemma zone_step:
  assumes z: "lit_zone q" and x: "is_junk_char x \<or> is_word x" and ne: "fst (step x q) \<noteq> Err"
  shows "lit_zone (step x q)"
proof -
  obtain m st where q: "q = (m, st)" by (cases q)
  have x': "x \<noteq> 44 \<and> x \<noteq> 93 \<and> x \<noteq> 125"
    using x by (auto simp: is_junk_char_def is_word_def is_alnum_def is_alpha_def is_digit_def
        is_space_def)
  show ?thesis
  proof (cases m)
    case (InLit r v)
    then show ?thesis
      using z ne q by (auto simp: push_value_zone split: list.splits if_splits)
  next
    case CommaOrEnd
    then show ?thesis using z ne q x' by (auto split: if_splits)
  next
    case (Done v)
    then show ?thesis using z ne q by (auto split: if_splits)
  qed (use z q in simp_all)
qed

lemma zone_stop:
  assumes z: "lit_zone q" and x: "x = 58 \<or> x = 34"
  shows "fst (step x q) = Err"
proof -
  obtain m st where q: "q = (m, st)" by (cases q)
  show ?thesis
  proof (cases m)
    case (InLit r v)
    then show ?thesis
      using z q x by (auto simp: is_alpha_def split: list.splits if_splits)
  next
    case CommaOrEnd
    then show ?thesis using z q x by (auto simp: json_ws_def split: if_splits)
  next
    case (Done v)
    then show ?thesis using z q x by (auto simp: json_ws_def split: if_splits)
  qed (use z q in simp_all)
qed

lemma zone_run:
  "lit_zone q \<Longrightarrow> list_all (\<lambda>x. is_junk_char x \<or> is_word x) b \<Longrightarrow> fst (run q b) \<noteq> Err \<Longrightarrow>
   lit_zone (run q b)"
proof (induction b arbitrary: q)
  case Nil
  then show ?case by simp
next
  case (Cons x b)
  have "fst (step x q) \<noteq> Err"
    using Cons.prems(3) run_not_Err [of "step x q" b] by simp
  then have "lit_zone (step x q)" using zone_step Cons.prems by simp
  then show ?case using Cons.IH [of "step x q"] Cons.prems by simp
qed

text \<open>
  A text that the reader has not rejected holds, at the start of a line, neither a match of
  Regex 1 nor one of Regex 2: the only letters outside strings are those of the three
  literals, and what follows a literal is white space, a comma or a closing bracket.
\<close>

lemma zone_blocks:
  assumes tm: "token_mode (fst p)" and c: "is_alpha c \<or> c = 95"
    and b: "list_all (\<lambda>x. is_junk_char x \<or> is_word x) b" and d: "d = 58 \<or> d = 34"
    and w: "list_all is_space w"
  shows "fst (run p (w @ c # b @ d # rest)) = Err"
proof (rule ccontr)
  assume ne: "fst (run p (w @ c # b @ d # rest)) \<noteq> Err"
  have r: "run p (w @ c # b @ d # rest) = run (step d (run (step c (run p w)) b)) rest"
    by (simp add: run_append)
  have n4: "fst (step d (run (step c (run p w)) b)) \<noteq> Err"
    using ne run_not_Err unfolding r by blast
  then have n3: "fst (run (step c (run p w)) b) \<noteq> Err"
    using run_not_Err [of "run (step c (run p w)) b" "[d]"] by simp
  then have n2: "fst (step c (run p w)) \<noteq> Err" using run_not_Err by blast
  then have n1: "fst (run p w) \<noteq> Err"
    using run_not_Err [of "run p w" "[c]"] by simp
  have pw: "run p w = p" using run_spaces [OF tm w n1] by blast
  have "lit_zone (step c p)" using zone_enter [OF tm c] n2 pw by simp
  then have "lit_zone (run (step c p) b)" using zone_run [OF _ b] n3 pw by simp
  then have "fst (step d (run (step c p) b)) = Err" using zone_stop d by blast
  then show False using n4 pw by simp
qed

lemma match_placeholder_reader:
  assumes tm: "token_mode (fst p)" and ne: "fst (run p s) \<noteq> Err"
  shows "match_placeholder s = None"
proof (rule ccontr)
  assume "match_placeholder s \<noteq> None"
  then obtain c r d r3 where
    a: "dropWhile is_space s = c # r" and c: "is_alpha c \<or> c = 95"
    and b: "dropWhile is_word r = d # r3" and d: "d = 58"
    unfolding match_placeholder_def
    by (auto split: list.splits if_splits)
  have s: "s = takeWhile is_space s @ c # takeWhile is_word r @ d # r3"
    using takeWhile_dropWhile_id [of is_space s] takeWhile_dropWhile_id [of is_word r] a b
    by simp
  have "list_all is_space (takeWhile is_space s)"
    unfolding list_all_iff using set_takeWhileD by fastforce
  moreover have "list_all (\<lambda>x. is_junk_char x \<or> is_word x) (takeWhile is_word r)"
    unfolding list_all_iff using set_takeWhileD by fastforce
  ultimately have "fst (run p (takeWhile is_space s @ c # takeWhile is_word r @ d # r3)) = Err"
    using zone_blocks [OF tm c] d by blast
  then show False using ne s by simp
qed

lemma match_junk_prefix_reader:
  assumes tm: "token_mode (fst p)" and ne: "fst (run p s) \<noteq> Err"
  shows "match_junk_prefix s = None"
proof (rule ccontr)
  assume "match_junk_prefix s \<noteq> None"
  then obtain c r d r3 where
    a: "dropWhile is_space s = c # r" and c: "is_alpha c"
    and b: "dropWhile is_junk_char r = d # r3" and d: "d = 34"
    unfolding match_junk_prefix_def
    by (auto simp: Let_def split: list.splits if_splits)
  have s: "s = takeWhile is_space s @ c # takeWhile is_junk_char r @ d # r3"
    using takeWhile_dropWhile_id [of is_space s] takeWhile_dropWhile_id [of is_junk_char r] a b
    by simp
  have "list_all is_space (takeWhile is_space s)"
    unfolding list_all_iff using set_takeWhileD by fastforce
  moreover have "list_all (\<lambda>x. is_junk_char x \<or> is_word x) (takeWhile is_junk_char r)"
    unfolding list_all_iff using set_takeWhileD by fastforce
  ultimately have
    "fst (run p (takeWhile is_space s @ c # takeWhile is_junk_char r @ d # r3)) = Err"
    using zone_blocks [OF tm] c d by blast
  then show False using ne s by simp
qed

lemma replace_placeholders_reader:
  "(bol \<longrightarrow> token_mode (fst p)) \<Longrightarrow> lit_ok p \<Longrightarrow> fst (run p s) \<noteq> Err \<Longrightarrow>
   8232 \<notin> set s \<Longrightarrow> 8233 \<notin> set s \<Longrightarrow> replace_placeholders bol s = s"
proof (induction s arbitrary: bol p)
  case Nil
  then show ?case by simp
next
  case (Cons c cs)
  have m: "(if bol then match_placeholder (c # cs) else None) = None"
    using match_placeholder_reader [of p "c # cs"] Cons.prems by simp
  have ne: "fst (step c p) \<noteq> Err"
    using Cons.prems(3) run_not_Err [of "step c p" cs] by simp
  have lt: "is_line_terminator c \<longrightarrow> token_mode (fst (step c p))"
    using step_line_end_token [OF _ Cons.prems(2) ne] Cons.prems(4,5)
    by (auto simp: is_line_terminator_def)
  have "replace_placeholders (is_line_terminator c) cs = cs"
    using Cons.IH [OF lt step_lit_ok [OF Cons.prems(2)]] Cons.prems by simp
  then show ?case using m by simp
qed

lemma replace_junk_prefixes_reader:
  "(bol \<longrightarrow> token_mode (fst p)) \<Longrightarrow> lit_ok p \<Longrightarrow> fst (run p s) \<noteq> Err \<Longrightarrow>
   8232 \<notin> set s \<Longrightarrow> 8233 \<notin> set s \<Longrightarrow> replace_junk_prefixes bol s = s"
proof (induction s arbitrary: bol p)
  case Nil
  then show ?case by simp
next
  case (Cons c cs)
  have m: "(if bol then match_junk_prefix (c # cs) else None) = None"
    using match_junk_prefix_reader [of p "c # cs"] Cons.prems by simp
  have ne: "fst (step c p) \<noteq> Err"
    using Cons.prems(3) run_not_Err [of "step c p" cs] by simp
  have lt: "is_line_terminator c \<longrightarrow> token_mode (fst (step c p))"
    using step_line_end_token [OF _ Cons.prems(2) ne] Cons.prems(4,5)
    by (auto simp: is_line_terminator_def)
  have "replace_junk_prefixes (is_line_terminator c) cs = cs"
    using Cons.IH [OF lt step_lit_ok [OF Cons.prems(2)]] Cons.prems by simp
  then show ?case using m by simp
qed

subsection \<open>Blank lines and the reader\<close>

lemma last_newline_None: "(last_newline w = None) = (10 \<notin> set w)"
  by (induction w) (auto split: option.splits)

lemma last_newline_Some: "last_newline w = Some k \<Longrightarrow> k < length w \<and> w ! k = 10"
proof (induction w arbitrary: k)
  case Nil
  then show ?case by simp
next
  case (Cons c w)
  then show ?case by (cases "last_newline w") (auto split: if_splits)
qed

lemma take_takeWhile_all:
  assumes "k < length (takeWhile P cs)"
  shows "list_all P (take (Suc k) cs) \<and> take (Suc k) cs = take (Suc k) (takeWhile P cs)"
proof -
  have "take (Suc k) (takeWhile P cs @ dropWhile P cs) = take (Suc k) (takeWhile P cs)"
    using assms by (simp del: takeWhile_dropWhile_id)
  then have e: "take (Suc k) cs = take (Suc k) (takeWhile P cs)"
    by (simp only: takeWhile_dropWhile_id)
  have "set (take (Suc k) (takeWhile P cs)) \<subseteq> set (takeWhile P cs)" by (rule set_take_subset)
  then have "\<forall>x\<in>set (take (Suc k) (takeWhile P cs)). P x" using set_takeWhileD by fastforce
  then show ?thesis using e by (simp add: list_all_iff)
qed

text \<open>
  Collapsing blank lines does not change what the reader makes of a text that it has not
  rejected: a line feed is outside every token, and so is the white space after it.
\<close>

lemma collapse_run:
  "lit_ok p \<Longrightarrow> fst (run p s) \<noteq> Err \<Longrightarrow> run p (collapse_blank_lines s) = run p s"
proof (induction s arbitrary: p rule: collapse_blank_lines.induct)
  case 1
  then show ?case by simp
next
  case (2 c cs)
  have ne: "fst (step c p) \<noteq> Err"
    using "2.prems"(2) run_not_Err [of "step c p" cs] by simp
  have ok: "lit_ok (step c p)" using "2.prems"(1) by (rule step_lit_ok)
  show ?case
  proof (cases "c = 10")
    case False
    then show ?thesis using "2.IH"(3) [OF False ok] "2.prems"(2) by simp
  next
    case True
    have tm: "token_mode (fst (step c p))"
      using step_line_end_token [OF _ "2.prems"(1) ne] True by simp
    show ?thesis
    proof (cases "last_newline (takeWhile is_space cs)")
      case None
      then show ?thesis using "2.IH"(1) [OF True None ok] "2.prems"(2) True by simp
    next
      case (Some k)
      have k: "k < length (takeWhile is_space cs)" using last_newline_Some [OF Some] by blast
      have sp: "list_all is_space (take (Suc k) cs)" using take_takeWhile_all [OF k] by blast
      have cs: "cs = take (Suc k) cs @ drop (Suc k) cs" by simp
      have r: "run (step c p) cs = run (run (step c p) (take (Suc k) cs)) (drop (Suc k) cs)"
        using run_append [of "step c p" "take (Suc k) cs" "drop (Suc k) cs"] by simp
      have "fst (run (step c p) cs) \<noteq> Err" using "2.prems"(2) by simp
      then have "fst (run (step c p) (take (Suc k) cs)) \<noteq> Err"
        unfolding r using run_not_Err by blast
      then have same: "run (step c p) (take (Suc k) cs) = step c p"
        using run_spaces [OF tm sp] by blast
      have r2: "run (step c p) cs = run (step c p) (drop (Suc k) cs)"
        using r same by simp
      have "fst (run (step c p) (drop (Suc k) cs)) \<noteq> Err"
        using "2.prems"(2) r2 by simp
      then have "run (step c p) (collapse_blank_lines (drop (Suc k) cs)) =
                 run (step c p) (drop (Suc k) cs)"
        using "2.IH"(2) [OF True Some ok] by simp
      then show ?thesis using True Some r2 by simp
    qed
  qed
qed

lemma set_collapse: "set (collapse_blank_lines s) \<subseteq> set s"
proof (induction s rule: collapse_blank_lines.induct)
  case 1
  then show ?case by simp
next
  case (2 c cs)
  show ?case
  proof (cases "c = 10")
    case False
    then show ?thesis using "2.IH"(3) by auto
  next
    case True
    show ?thesis
    proof (cases "last_newline (takeWhile is_space cs)")
      case None
      then show ?thesis using "2.IH"(1) True by auto
    next
      case (Some k)
      have "set (drop (Suc k) cs) \<subseteq> set cs" by (rule set_drop_subset)
      then show ?thesis using "2.IH"(2) [OF True Some] True Some by auto
    qed
  qed
qed

lemma kept_lines_id:
  "list_all keep_line (split_lines s) \<Longrightarrow> join_lines (filter keep_line (split_lines s)) = s"
proof -
  assume "list_all keep_line (split_lines s)"
  then have "filter keep_line (split_lines s) = split_lines s"
    by (simp add: list_all_iff)
  then show ?thesis by (simp add: join_split_lines)
qed

lemma JSON_parse_not_Err: "JSON_parse s = Inr v \<Longrightarrow> fst (run (Value, []) s) \<noteq> Err"
  using finalize_Err [of "run (Value, []) s"] by (auto simp: JSON_parse_def)

lemma run_prefix_not_Err: "fst (run p (a @ b)) \<noteq> Err \<Longrightarrow> fst (run p a) \<noteq> Err"
  using run_not_Err [of "run p a" b] by (simp add: run_append)

text \<open>
  On a text that the reader has not rejected, that has no line separator U+2028 or U+2029 and
  whose lines are all kept by the filter, the stage only collapses blank lines and trims.
\<close>

lemma sanitize_lines_reader:
  assumes ne: "fst (run (Value, []) t) \<noteq> Err" and a: "8232 \<notin> set t" and b: "8233 \<notin> set t"
    and k: "list_all keep_line (split_lines t)"
  shows "sanitize_lines t = trim (collapse_blank_lines t)"
proof -
  have r1: "replace_placeholders True t = t"
    using replace_placeholders_reader [of True "(Value, [])" t] ne a b by simp
  have r2: "replace_junk_prefixes True t = t"
    using replace_junk_prefixes_reader [of True "(Value, [])" t] ne a b by simp
  show ?thesis
    unfolding sanitize_lines_def Let_def r1 r2 kept_lines_id [OF k] ..
qed

lemma parse_collapse:
  assumes "JSON_parse (t @ u) = Inr v"
  shows "JSON_parse (collapse_blank_lines t @ u) = Inr v"
proof -
  have "fst (run (Value, []) t) \<noteq> Err"
    using JSON_parse_not_Err [OF assms] run_prefix_not_Err by blast
  then have "run (Value, []) (collapse_blank_lines t) = run (Value, []) t"
    using collapse_run [of "(Value, [])" t] by simp
  then show ?thesis using assms by (simp add: JSON_parse_def run_append)
qed


text \<open>A line separator inside a string of well-formed JSON starts a line for Regex 1.\<close>

lemma line_separator_in_string:
  \<open>JSON_parse (js ''"a'' @ 8232 # js ''b: []'' @ 8232 # js ''c"'') =
     Inr (JStr (js ''a'' @ 8232 # js ''b: []'' @ 8232 # js ''c'')) \<and>
   list_all keep_line (split_lines (js ''"a'' @ 8232 # js ''b: []'' @ 8232 # js ''c"'')) \<and>
   sanitizeAndParseJson (js ''"a'' @ 8232 # js ''b: []'' @ 8232 # js ''c"'') =
     Returns (JStr (js ''a'' @ 8232 # 8232 # js ''c''))\<close>
  by code_simp

text \<open>Truncated objects over several lines.\<close>

lemma truncated_kept_lines:
  assumes parse: "JSON_parse (T @ u) = Inr v" and hd: "hd (T @ u) = 123" and u: "u \<noteq> []"
    and last: "\<not> json_ws (last u)"
    and a: "8232 \<notin> set (trim T)" and b: "8233 \<notin> set (trim T)"
    and k: "list_all keep_line (split_lines (trim T))"
  shows "JSON_parse (sanitize T) = Inl SyntaxError \<and>
         extractBalancedRegion (sanitize T) = None \<and>
         sanitizeAndParseJson T = Returns JNull"
proof (cases T)
  case Nil
  then show ?thesis
    by (simp add: sanitizeAndParseJson_def sanitize_empty parse_sanitized_empty
        extractBalancedRegion_def expected_pair_def trimStart_def JSON_parse_def)
next
  case (Cons c T')
  then have c: "c = 123" using hd by simp
  obtain sfx where T': "T' = trimEnd T' @ sfx" using trimEnd_prefix by blast
  let ?T1 = "trimEnd T'"
  have t: "trim T = 123 # ?T1" unfolding Cons c by (rule trim_Cons) (simp add: is_space_def)
  have whole: "T @ u = (123 # ?T1) @ sfx @ u" using Cons c T' by simp
  have p1: "JSON_parse ((123 # ?T1) @ sfx @ u) = Inr v" using parse whole by simp
  have ne: "fst (run (Value, []) (123 # ?T1)) \<noteq> Err"
    using JSON_parse_not_Err [OF p1] run_prefix_not_Err by blast
  have u1: "unwrap_fence (123 # ?T1) = 123 # ?T1" by (rule unwrap_fence_hd) simp_all
  have sl: "sanitize_lines (123 # ?T1) = trim (collapse_blank_lines (123 # ?T1))"
    using sanitize_lines_reader [OF ne] a b k unfolding t by blast
  have cb: "collapse_blank_lines (123 # ?T1) = 123 # collapse_blank_lines ?T1" by simp
  have s: "sanitize T = 123 # trimEnd (collapse_blank_lines ?T1)"
    unfolding sanitize_def t u1 sl cb by (rule trim_Cons) (simp add: is_space_def)
  have "JSON_parse (collapse_blank_lines (123 # ?T1) @ sfx @ u) = Inr v"
    using p1 by (rule parse_collapse)
  then have p2: "JSON_parse (123 # collapse_blank_lines ?T1 @ sfx @ u) = Inr v"
    unfolding cb by simp
  have "sfx @ u \<noteq> []" "\<not> json_ws (last (sfx @ u))" using u last by simp_all
  from truncated_object_open [OF p2 this]
  have oa: "open_along 123 (step 123 (Value, [])) (trimEnd (collapse_blank_lines ?T1))" .
  show ?thesis
    using open_text_fails [OF oa]
    by (simp add: sanitizeAndParseJson_def s parse_sanitized_def)
qed



subsection \<open>Lines through the filter, the collapse and the trim\<close>

lemma split_lines_ne: "split_lines s \<noteq> []"
  by (cases s) (auto split: list.splits)

lemma split_lines_Cons:
  "split_lines (c # cs) =
     (if c = 10 then [] # split_lines cs
      else (c # hd (split_lines cs)) # tl (split_lines cs))"
  using split_lines_ne [of cs] by (cases "split_lines cs") simp_all

lemma split_lines_no_newline: "l \<in> set (split_lines s) \<Longrightarrow> 10 \<notin> set l"
proof (induction s arbitrary: l)
  case Nil
  then show ?case by simp
next
  case (Cons c s)
  obtain l0 ls where sl: "split_lines s = l0 # ls"
    using split_lines_ne [of s] by (cases "split_lines s") auto
  show ?case
  proof (cases "c = 10")
    case True
    then show ?thesis using Cons by auto
  next
    case False
    then have "l = c # l0 \<or> l \<in> set ls" using Cons.prems sl by simp
    then show ?thesis using Cons.IH [of l0] Cons.IH [of l] sl False by auto
  qed
qed

lemma split_lines_line: "10 \<notin> set a \<Longrightarrow> split_lines (a @ 10 # b) = a # split_lines b"
  by (induction a) simp_all

lemma split_lines_append: "split_lines (a @ 10 # b) = split_lines a @ split_lines b"
proof (induction a)
  case Nil
  then show ?case by simp
next
  case (Cons c a)
  obtain l0 ls where sl: "split_lines a = l0 # ls"
    using split_lines_ne [of a] by (cases "split_lines a") auto
  show ?case using Cons sl by simp
qed

lemma split_join_lines:
  "ls \<noteq> [] \<Longrightarrow> \<forall>l\<in>set ls. 10 \<notin> set l \<Longrightarrow> split_lines (join_lines ls) = ls"
proof (induction ls rule: join_lines.induct)
  case 1
  then show ?case by simp
next
  case (2 l)
  then show ?case by (simp add: split_lines_single)
next
  case (3 l v va)
  have "split_lines (l @ 10 # join_lines (v # va)) = l # split_lines (join_lines (v # va))"
    using "3.prems"(2) by (simp add: split_lines_line)
  then show ?case using 3 by simp
qed

lemma keep_line_Nil: "keep_line []"
  by (simp add: keep_line_def trim_Nil)

lemma keep_line_cong: "trim a = trim b \<Longrightarrow> keep_line a = keep_line b"
  by (simp add: keep_line_def)

text \<open>What the filter gives consists of kept lines.\<close>

lemma filtered_lines_kept:
  "list_all keep_line (split_lines (join_lines (filter keep_line (split_lines s))))"
proof (cases "filter keep_line (split_lines s) = []")
  case True
  then show ?thesis by (simp add: keep_line_Nil)
next
  case False
  have "\<forall>l\<in>set (filter keep_line (split_lines s)). 10 \<notin> set l"
    using split_lines_no_newline by auto
  from split_join_lines [OF False this] show ?thesis by (simp add: list_all_iff)
qed

text \<open>Collapsing blank lines only removes lines.\<close>

lemma hd_tl_subset:
  "xs \<noteq> [] \<Longrightarrow> ys \<noteq> [] \<Longrightarrow> hd xs = hd ys \<Longrightarrow> set (tl xs) \<subseteq> set (tl ys) \<Longrightarrow>
   set xs \<subseteq> set ys"
  by (cases xs; cases ys) auto

lemma collapse_lines:
  "hd (split_lines (collapse_blank_lines s)) = hd (split_lines s) \<and>
   set (tl (split_lines (collapse_blank_lines s))) \<subseteq> set (tl (split_lines s))"
proof (induction s rule: collapse_blank_lines.induct)
  case 1
  then show ?case by simp
next
  case (2 c cs)
  have all: "\<And>x. hd (split_lines (collapse_blank_lines x)) = hd (split_lines x) \<Longrightarrow>
      set (tl (split_lines (collapse_blank_lines x))) \<subseteq> set (tl (split_lines x)) \<Longrightarrow>
      set (split_lines (collapse_blank_lines x)) \<subseteq> set (split_lines x)"
  proof -
    fix x
    assume h: "hd (split_lines (collapse_blank_lines x)) = hd (split_lines x)"
      and t: "set (tl (split_lines (collapse_blank_lines x))) \<subseteq> set (tl (split_lines x))"
    show "set (split_lines (collapse_blank_lines x)) \<subseteq> set (split_lines x)"
      using hd_tl_subset [OF split_lines_ne split_lines_ne h t] .
  qed
  show ?case
  proof (cases "c = 10")
    case False
    then show ?thesis
      using "2.IH"(3) [OF False]
      by (simp add: split_lines_Cons del: split_lines.simps)
  next
    case True
    show ?thesis
    proof (cases "last_newline (takeWhile is_space cs)")
      case None
      have "set (split_lines (collapse_blank_lines cs)) \<subseteq> set (split_lines cs)"
        using all [of cs] "2.IH"(1) [OF True None] by blast
      then show ?thesis using True None by simp
    next
      case (Some k)
      let ?rest = "drop (Suc k) cs"
      have k: "k < length (takeWhile is_space cs)" "takeWhile is_space cs ! k = 10"
        using last_newline_Some [OF Some] by blast+
      have kl: "k < length cs" using k(1) length_takeWhile_le [of is_space cs] by simp
      have "cs ! k = 10" using k takeWhile_nth [of k is_space cs] by simp
      then have "cs = take k cs @ 10 # ?rest" using id_take_nth_drop [OF kl] by simp
      then have "split_lines cs = split_lines (take k cs) @ split_lines ?rest"
        using split_lines_append [of "take k cs" ?rest] by simp
      then have sub: "set (split_lines ?rest) \<subseteq> set (split_lines cs)" by simp
      have "set (split_lines (collapse_blank_lines ?rest)) \<subseteq> set (split_lines ?rest)"
        using all [of ?rest] "2.IH"(2) [OF True Some] by blast
      then show ?thesis using True Some sub by simp
    qed
  qed
qed

lemma collapse_lines_kept:
  assumes "list_all keep_line (split_lines s)"
  shows "list_all keep_line (split_lines (collapse_blank_lines s))"
proof -
  have "set (split_lines (collapse_blank_lines s)) \<subseteq> set (split_lines s)"
    using hd_tl_subset [OF split_lines_ne split_lines_ne] collapse_lines [of s] by blast
  then show ?thesis using assms unfolding list_all_iff by blast
qed

text \<open>Trimming shortens the first and the last line by white space, or removes blank lines.\<close>

lemma trim_space_Cons: "is_space c \<Longrightarrow> trim (c # l) = trim l"
  by (simp add: trim_def trimStart_def)

lemma trim_space_snoc: "is_space c \<Longrightarrow> trim (l @ [c]) = trim l"
proof -
  assume c: "is_space c"
  show ?thesis
  proof (cases "\<forall>x\<in>set l. is_space x")
    case True
    then have "list_all is_space l" "list_all is_space (l @ [c])"
      using c by (simp_all add: list_all_iff)
    then show ?thesis using trim_all_space by simp
  next
    case False
    then obtain x where "x \<in> set l" "\<not> is_space x" by blast
    then have "dropWhile is_space (l @ [c]) = dropWhile is_space l @ [c]"
      by (rule dropWhile_append1)
    then show ?thesis using c by (simp add: trim_def trimStart_def trimEnd_snoc_space)
  qed
qed

lemma trimStart_lines_kept:
  "list_all keep_line (split_lines s) \<Longrightarrow> list_all keep_line (split_lines (trimStart s))"
proof (induction s)
  case Nil
  then show ?case by (simp add: trimStart_def)
next
  case (Cons c s)
  show ?case
  proof (cases "is_space c")
    case False
    then show ?thesis using Cons.prems by (simp add: trimStart_def)
  next
    case True
    have "list_all keep_line (split_lines s)"
    proof (cases "c = 10")
      case True
      then show ?thesis using Cons.prems by simp
    next
      case False
      obtain l0 ls where sl: "split_lines s = l0 # ls"
        using split_lines_ne [of s] by (cases "split_lines s") auto
      have "keep_line (c # l0)" "list_all keep_line ls"
        using Cons.prems False sl by simp_all
      moreover have "keep_line (c # l0) = keep_line l0"
        using keep_line_cong [OF trim_space_Cons [OF True]] .
      ultimately show ?thesis using sl by simp
    qed
    then show ?thesis using Cons.IH True by (simp add: trimStart_def)
  qed
qed

lemma split_lines_snoc:
  "split_lines (xs @ [c]) =
     (if c = 10 then split_lines xs @ [[]]
      else butlast (split_lines xs) @ [last (split_lines xs) @ [c]])"
proof (induction xs)
  case Nil
  then show ?case by simp
next
  case (Cons x xs)
  obtain l0 ls where sl: "split_lines xs = l0 # ls"
    using split_lines_ne [of xs] by (cases "split_lines xs") auto
  show ?case
    using Cons sl by (cases "x = 10"; cases "c = 10"; cases ls) simp_all
qed

lemma trimEnd_lines_kept:
  "list_all keep_line (split_lines s) \<Longrightarrow> list_all keep_line (split_lines (trimEnd s))"
proof (induction s rule: rev_induct)
  case Nil
  then show ?case by (simp add: trimEnd_def)
next
  case (snoc c s)
  show ?case
  proof (cases "is_space c")
    case False
    then show ?thesis using snoc.prems by (simp add: trimEnd_snoc)
  next
    case True
    have "list_all keep_line (split_lines s)"
    proof (cases "c = 10")
      case True
      then show ?thesis using snoc.prems by (simp add: split_lines_snoc)
    next
      case False
      obtain bs l where sl: "split_lines s = bs @ [l]"
        using split_lines_ne [of s] by (cases "split_lines s" rule: rev_cases) auto
      have "keep_line (l @ [c])" "list_all keep_line bs"
        using snoc.prems False sl by (simp_all add: split_lines_snoc)
      moreover have "keep_line (l @ [c]) = keep_line l"
        using keep_line_cong [OF trim_space_snoc [OF True]] .
      ultimately show ?thesis using sl by simp
    qed
    then show ?thesis using snoc.IH True by (simp add: trimEnd_snoc_space)
  qed
qed

lemma trim_lines_kept:
  "list_all keep_line (split_lines s) \<Longrightarrow> list_all keep_line (split_lines (trim s))"
  unfolding trim_def using trimStart_lines_kept trimEnd_lines_kept by blast

text \<open>After one collapse no blank line is left, and trimming makes none.\<close>

lemma length_collapse: "length (collapse_blank_lines s) \<le> length s"
proof (induction s rule: collapse_blank_lines.induct)
  case 1
  then show ?case by simp
next
  case (2 c cs)
  show ?case
  proof (cases "c = 10")
    case False
    then show ?thesis using "2.IH"(3) by simp
  next
    case True
    show ?thesis
    proof (cases "last_newline (takeWhile is_space cs)")
      case None
      then show ?thesis using "2.IH"(1) True by simp
    next
      case (Some k)
      then show ?thesis using "2.IH"(2) [OF True Some] True by simp
    qed
  qed
qed

lemma collapse_fixed_Cons:
  assumes "collapse_blank_lines (c # cs) = c # cs"
  shows "collapse_blank_lines cs = cs \<and> (c = 10 \<longrightarrow> 10 \<notin> set (takeWhile is_space cs))"
proof (cases "c = 10")
  case False
  then show ?thesis using assms by simp
next
  case True
  show ?thesis
  proof (cases "last_newline (takeWhile is_space cs)")
    case None
    have "10 \<notin> set (takeWhile is_space cs)" using None last_newline_None by blast
    moreover have "collapse_blank_lines cs = cs" using assms True None by simp
    ultimately show ?thesis by blast
  next
    case (Some k)
    then have "collapse_blank_lines (drop (Suc k) cs) = cs" using assms True by simp
    moreover have "length (collapse_blank_lines (drop (Suc k) cs)) \<le> length (drop (Suc k) cs)"
      by (rule length_collapse)
    moreover have "k < length cs"
      using last_newline_Some [OF Some] length_takeWhile_le [of is_space cs]
      by (meson less_le_trans)
    ultimately show ?thesis by simp
  qed
qed

lemma collapse_fixed_intro:
  "collapse_blank_lines cs = cs \<Longrightarrow> (c = 10 \<longrightarrow> 10 \<notin> set (takeWhile is_space cs)) \<Longrightarrow>
   collapse_blank_lines (c # cs) = c # cs"
proof (cases "c = 10")
  case False
  assume "collapse_blank_lines cs = cs"
  then show ?thesis using False by simp
next
  case True
  assume f: "collapse_blank_lines cs = cs" and "c = 10 \<longrightarrow> 10 \<notin> set (takeWhile is_space cs)"
  then have "last_newline (takeWhile is_space cs) = None"
    using True last_newline_None by blast
  then show ?thesis using f True by simp
qed

lemma collapse_fixed_suffix:
  "collapse_blank_lines (a @ b) = a @ b \<Longrightarrow> collapse_blank_lines b = b"
proof (induction a)
  case Nil
  then show ?case by simp
next
  case (Cons c a)
  then show ?case using collapse_fixed_Cons [of c "a @ b"] by simp
qed

lemma takeWhile_prefix_set: "set (takeWhile P a) \<subseteq> set (takeWhile P (a @ b))"
  by (induction a) auto

lemma collapse_fixed_prefix:
  "collapse_blank_lines (a @ b) = a @ b \<Longrightarrow> collapse_blank_lines a = a"
proof (induction a)
  case Nil
  then show ?case by simp
next
  case (Cons c a)
  have f: "collapse_blank_lines (a @ b) = a @ b"
    "c = 10 \<longrightarrow> 10 \<notin> set (takeWhile is_space (a @ b))"
    using collapse_fixed_Cons [of c "a @ b"] Cons.prems by simp_all
  have "c = 10 \<longrightarrow> 10 \<notin> set (takeWhile is_space a)"
    using f(2) takeWhile_prefix_set [of is_space a b] by blast
  then show ?case using Cons.IH [OF f(1)] by (rule collapse_fixed_intro [rotated])
qed

lemma takeWhile_collapse:
  "10 \<notin> set (takeWhile is_space s) \<Longrightarrow>
   takeWhile is_space (collapse_blank_lines s) = takeWhile is_space s"
proof (induction s)
  case Nil
  then show ?case by simp
next
  case (Cons c s)
  show ?case
  proof (cases "is_space c")
    case True
    then have "c \<noteq> 10" "10 \<notin> set (takeWhile is_space s)" using Cons.prems by auto
    then show ?thesis using Cons.IH True by simp
  next
    case False
    then have "c \<noteq> 10" by (auto simp: is_space_def)
    then show ?thesis using False by simp
  qed
qed

lemma last_newline_last: "last_newline w = Some k \<Longrightarrow> 10 \<notin> set (drop (Suc k) w)"
proof (induction w arbitrary: k)
  case Nil
  then show ?case by simp
next
  case (Cons c w)
  show ?case
  proof (cases "last_newline w")
    case None
    then show ?thesis using Cons.prems last_newline_None [of w] by (auto split: if_splits)
  next
    case (Some j)
    then show ?thesis using Cons by auto
  qed
qed

lemma takeWhile_drop:
  assumes "n \<le> length (takeWhile P cs)"
  shows "takeWhile P (drop n cs) = drop n (takeWhile P cs)"
proof -
  have "drop n (takeWhile P cs @ dropWhile P cs) = drop n (takeWhile P cs) @ dropWhile P cs"
    using assms by (simp del: takeWhile_dropWhile_id)
  then have cs: "drop n cs = drop n (takeWhile P cs) @ dropWhile P cs"
    by (simp only: takeWhile_dropWhile_id)
  have all: "\<forall>x\<in>set (drop n (takeWhile P cs)). P x"
    using set_drop_subset [of n "takeWhile P cs"] set_takeWhileD by fastforce
  have "takeWhile P (dropWhile P cs) = []"
  proof (cases "dropWhile P cs")
    case Nil
    show ?thesis unfolding Nil by simp
  next
    case (Cons a r)
    have "\<not> P a" using hd_dropWhile [of P cs] Cons by simp
    then show ?thesis unfolding Cons by simp
  qed
  then show ?thesis unfolding cs using all by (simp add: takeWhile_append)
qed

lemma collapse_idem:
  "collapse_blank_lines (collapse_blank_lines s) = collapse_blank_lines s"
proof (induction s rule: collapse_blank_lines.induct)
  case 1
  then show ?case by simp
next
  case (2 c cs)
  show ?case
  proof (cases "c = 10")
    case False
    then show ?thesis using "2.IH"(3) by simp
  next
    case True
    show ?thesis
    proof (cases "last_newline (takeWhile is_space cs)")
      case None
      then have "10 \<notin> set (takeWhile is_space cs)" using last_newline_None by blast
      then have "10 \<notin> set (takeWhile is_space (collapse_blank_lines cs))"
        using takeWhile_collapse by simp
      then have "collapse_blank_lines (10 # collapse_blank_lines cs) = 10 # collapse_blank_lines cs"
        using "2.IH"(1) [OF True None] by (intro collapse_fixed_intro) simp_all
      then show ?thesis using True None by simp
    next
      case (Some k)
      let ?rest = "drop (Suc k) cs"
      have k: "Suc k \<le> length (takeWhile is_space cs)"
        using last_newline_Some [OF Some] by simp
      have "takeWhile is_space ?rest = drop (Suc k) (takeWhile is_space cs)"
        using takeWhile_drop [OF k] .
      then have "10 \<notin> set (takeWhile is_space ?rest)"
        using last_newline_last [OF Some] by simp
      then have "10 \<notin> set (takeWhile is_space (collapse_blank_lines ?rest))"
        using takeWhile_collapse by simp
      then have "collapse_blank_lines (10 # collapse_blank_lines ?rest) =
                 10 # collapse_blank_lines ?rest"
        using "2.IH"(2) [OF True Some] by (intro collapse_fixed_intro) simp_all
      then show ?thesis using True Some by simp
    qed
  qed
qed

lemma collapse_fixed_trim:
  assumes "collapse_blank_lines z = z"
  shows "collapse_blank_lines (trim z) = trim z"
proof -
  have "collapse_blank_lines (takeWhile is_space z @ trimStart z) =
        takeWhile is_space z @ trimStart z"
    using assms by (simp add: trimStart_def)
  then have a: "collapse_blank_lines (trimStart z) = trimStart z"
    by (rule collapse_fixed_suffix)
  obtain sfx where sfx: "trimStart z = trimEnd (trimStart z) @ sfx"
    using trimEnd_prefix by blast
  have "collapse_blank_lines (trimEnd (trimStart z) @ sfx) = trimEnd (trimStart z) @ sfx"
    using a sfx by simp
  then show ?thesis unfolding trim_def by (rule collapse_fixed_prefix)
qed

text \<open>
  What one pass gives is left alone by the line filter, the collapse of blank lines and the
  trim of a further pass.
\<close>

lemma sanitize_lines_stable:
  assumes k: "list_all keep_line (split_lines w)"
    and r1: "replace_placeholders True (trim (collapse_blank_lines w)) =
             trim (collapse_blank_lines w)"
    and r2: "replace_junk_prefixes True (trim (collapse_blank_lines w)) =
             trim (collapse_blank_lines w)"
  shows "sanitize_lines (trim (collapse_blank_lines w)) = trim (collapse_blank_lines w)"
proof -
  let ?y = "trim (collapse_blank_lines w)"
  have ky: "list_all keep_line (split_lines ?y)"
    using k collapse_lines_kept trim_lines_kept by blast
  have cy: "collapse_blank_lines ?y = ?y"
    using collapse_idem [of w] by (rule collapse_fixed_trim)
  show ?thesis
    unfolding sanitize_lines_def Let_def r1 r2 kept_lines_id [OF ky] cy by (rule trim_idem)
qed

lemma sanitize_lines_shape:
  "\<exists>w. list_all keep_line (split_lines w) \<and> sanitize_lines u = trim (collapse_blank_lines w)"
  unfolding sanitize_lines_def Let_def using filtered_lines_kept by blast

lemma trim_sanitize: "trim (sanitize x) = sanitize x"
  by (simp add: sanitize_def sanitize_lines_def trim_idem)

lemma second_pass_unchanged:
  assumes f: "unwrap_fence (sanitize x) = sanitize x"
    and r1: "replace_placeholders True (sanitize x) = sanitize x"
    and r2: "replace_junk_prefixes True (sanitize x) = sanitize x"
  shows "sanitize (sanitize x) = sanitize x"
proof -
  obtain w where w: "list_all keep_line (split_lines w)"
    and y: "sanitize x = trim (collapse_blank_lines w)"
    using sanitize_lines_shape [of "unwrap_fence (trim x)"] unfolding sanitize_def by blast
  have "sanitize_lines (sanitize x) = sanitize x"
    using sanitize_lines_stable [OF w] r1 r2 unfolding y by blast
  then show ?thesis
    using f trim_sanitize [of x] by (simp add: sanitize_def [of "sanitize x"])
qed

lemma trim_unwrap_fence: "trim (unwrap_fence (trim x)) = unwrap_fence (trim x)"
  by (simp add: unwrap_fence_def trim_idem split: option.splits)

lemma reader_trim:
  assumes "fst (run (Value, []) s) \<noteq> Err"
  shows "fst (run (Value, []) (trim s)) \<noteq> Err"
proof -
  have sp: "list_all is_space (takeWhile is_space s)"
    unfolding list_all_iff using set_takeWhileD by fastforce
  have r: "run (Value, []) s =
           run (run (Value, []) (takeWhile is_space s)) (trimStart s)"
    using run_append [of "(Value, [])" "takeWhile is_space s" "trimStart s"]
    by (simp add: trimStart_def)
  then have "fst (run (Value, []) (takeWhile is_space s)) \<noteq> Err"
    using assms run_not_Err by metis
  then have "run (Value, []) (takeWhile is_space s) = (Value, [])"
    using run_spaces [OF _ sp] by simp
  then have a: "fst (run (Value, []) (trimStart s)) \<noteq> Err" using assms r by simp
  obtain sfx where sfx: "trimStart s = trimEnd (trimStart s) @ sfx"
    using trimEnd_prefix by blast
  have "fst (run (Value, []) (trimEnd (trimStart s) @ sfx)) \<noteq> Err" using a sfx by simp
  then show ?thesis unfolding trim_def by (rule run_prefix_not_Err)
qed

lemma reader_first:
  assumes "fst (run (Value, []) y) \<noteq> Err" "trim y = y"
  shows "take 3 y \<noteq> fence"
proof (cases y)
  case Nil
  then show ?thesis by (simp add: fence_def)
next
  case (Cons c r)
  have "\<not> is_space c" using trim_hd [of y] assms(2) Cons by simp
  then have nws: "\<not> json_ws c" using json_ws_is_space by blast
  have "fst (step c (Value, [])) \<noteq> Err"
    using assms(1) Cons run_not_Err [of "step c (Value, [])" r] by simp
  then have "c \<noteq> 96" using start_value_ok [of c "[]"] step_Value_start [OF nws] by simp
  then show ?thesis using Cons by (auto simp: fence_def)
qed

lemma sanitize_idem_json_lines:
  assumes parse: "JSON_parse (unwrap_fence (trim x) @ rest) = Inr v"
    and a: "8232 \<notin> set (unwrap_fence (trim x))" and b: "8233 \<notin> set (unwrap_fence (trim x))"
    and k: "list_all keep_line (split_lines (unwrap_fence (trim x)))"
  shows "sanitize (sanitize x) = sanitize x"
proof -
  let ?u = "unwrap_fence (trim x)"
  let ?y = "trim (collapse_blank_lines ?u)"
  have ne: "fst (run (Value, []) ?u) \<noteq> Err"
    using JSON_parse_not_Err [OF parse] run_prefix_not_Err by blast
  have y: "sanitize x = ?y"
    unfolding sanitize_def using sanitize_lines_reader [OF ne a b k] .
  have "run (Value, []) (collapse_blank_lines ?u) = run (Value, []) ?u"
    using collapse_run [of "(Value, [])" ?u] ne by simp
  then have "fst (run (Value, []) (collapse_blank_lines ?u)) \<noteq> Err" using ne by simp
  then have ney: "fst (run (Value, []) ?y) \<noteq> Err" by (rule reader_trim)
  have sub: "set ?y \<subseteq> set ?u" using set_trim set_collapse by blast
  have ay: "8232 \<notin> set ?y" "8233 \<notin> set ?y" using a b sub by blast+
  have r1: "replace_placeholders True ?y = ?y"
    using replace_placeholders_reader [of True "(Value, [])" ?y] ney ay by simp
  have r2: "replace_junk_prefixes True ?y = ?y"
    using replace_junk_prefixes_reader [of True "(Value, [])" ?y] ney ay by simp
  have f: "take 3 ?y \<noteq> fence" using reader_first [OF ney trim_idem] .
  have uf: "unwrap_fence ?y = ?y" using f by (rule unwrap_fence_no_fence)
  show ?thesis using second_pass_unchanged [of x] uf r1 r2 unfolding y by blast
qed

subsection \<open>A second pass\<close>

lemma sanitize_idem_single_line:
  assumes nl: "\<forall>c\<in>set (trim x). \<not> is_line_terminator c"
    and u: "unwrap_fence (trim x) = trim x"
  shows "sanitize (sanitize x) = sanitize x"
proof -
  let ?t = "trim x"
  have tt: "trim ?t = ?t" by (rule trim_idem)
  have sx: "sanitize x = sanitize_lines ?t" unfolding sanitize_def u ..
  have st: "sanitize ?t = sanitize_lines ?t" unfolding sanitize_def tt u ..
  have n10: "10 \<notin> set ?t" using nl by (rule no_lines_no_newline)
  have empty: "sanitize_lines ?t = [] \<Longrightarrow> ?thesis"
    unfolding sx using sanitize_empty by (simp only:)
  from replace_placeholders_one_line [OF nl]
  show ?thesis
  proof
    assume "replace_placeholders True ?t = []"
    then have "sanitize_lines ?t = []" by (rule sanitize_lines_emptied)
    then show ?thesis by (rule empty)
  next
    assume s1: "replace_placeholders True ?t = ?t"
    show ?thesis
    proof (cases "?t = []")
      case True
      have "sanitize_lines ?t = []"
        unfolding True by (rule sanitize_lines_emptied) (simp only: replace_placeholders.simps)
      then show ?thesis by (rule empty)
    next
      case False
      have "\<not> is_space (hd ?t)" using trim_hd [OF False] .
      from replace_junk_prefixes_one_line [OF nl False this]
      show ?thesis
      proof (elim disjE exE conjE)
        assume s2: "replace_junk_prefixes True ?t = ?t"
        have r: "sanitize_lines ?t = (if keep_line ?t then ?t else [])"
          using s1 s2 n10 tt by (rule sanitize_lines_kept)
        show ?thesis
        proof (cases "keep_line ?t")
          case True
          then have "sanitize_lines ?t = ?t" using r by (simp only: if_True)
          then show ?thesis unfolding sx using st by (simp only:)
        next
          case False
          then have "sanitize_lines ?t = []" using r by (simp only: if_False)
          then show ?thesis by (rule empty)
        qed
      next
        fix q assume s2: "replace_junk_prefixes True ?t = 34 # q" and q: "set q \<subseteq> set ?t"
        have "10 \<notin> set q" using q n10 by blast
        then have "10 \<notin> set (34 # q)" by simp
        with s1 s2 have r: "sanitize_lines ?t = trim (34 # q)" by (rule sanitize_lines_junk)
        let ?r = "trim (34 # q)"
        have rq: "?r = 34 # trimEnd q" by (rule trim_Cons) (simp add: is_space_def)
        have "sanitize ?r = ?r"
        proof (rule sanitize_fixed)
          show "\<forall>c\<in>set ?r. \<not> is_line_terminator c"
          proof
            fix c assume "c \<in> set ?r"
            then have "c \<in> set (34 # q)" using set_trim [of "34 # q"] by (rule rev_subsetD)
            then have "c = 34 \<or> c \<in> set q" by simp
            then have "c = 34 \<or> c \<in> set ?t" using q by blast
            moreover have "\<not> is_line_terminator 34" by (simp add: is_line_terminator_def)
            ultimately show "\<not> is_line_terminator c" using nl by blast
          qed
          show "trim ?r = ?r" by (rule trim_idem)
          show "?r \<noteq> []" unfolding rq by simp
          show "hd ?r = 123 \<or> hd ?r = 91 \<or> hd ?r = 34" unfolding rq by simp
        qed
        then show ?thesis unfolding sx r .
      qed
    qed
  qed
qed

lemma sanitize_unwrapped_once:
  assumes "unwrap_fence (unwrap_fence (trim x)) = unwrap_fence (trim x)"
  shows "sanitize (unwrap_fence (trim x)) = sanitize x"
  using assms trim_unwrap_fence [of x] by (simp add: sanitize_def)

lemma sanitize_idem_single_line_content:
  assumes nl: "\<forall>c\<in>set (unwrap_fence (trim x)). \<not> is_line_terminator c"
    and u: "unwrap_fence (unwrap_fence (trim x)) = unwrap_fence (trim x)"
  shows "sanitize (sanitize x) = sanitize x"
proof -
  let ?u = "unwrap_fence (trim x)"
  have "sanitize (sanitize ?u) = sanitize ?u"
    using sanitize_idem_single_line [of ?u] nl u trim_unwrap_fence [of x] by simp
  then show ?thesis using sanitize_unwrapped_once [OF u] by simp
qed

text \<open>No step of the stage makes the text longer, and a step that changes it makes it shorter.\<close>

lemma length_replace_placeholders: "length (replace_placeholders b s) \<le> length s"
proof (induction "length s" arbitrary: b s rule: less_induct)
  case less
  show ?case
  proof (cases s)
    case Nil
    then show ?thesis by simp
  next
    case (Cons c cs)
    show ?thesis
    proof (cases "if b then match_placeholder (c # cs) else None")
      case None
      then show ?thesis using less [of cs "is_line_terminator c"] Cons by simp
    next
      case (Some n)
      show ?thesis
      proof (cases n)
        case 0
        then show ?thesis using less [of cs "is_line_terminator c"] Cons Some by simp
      next
        case (Suc k)
        have "length (replace_placeholders (is_line_terminator ((c # cs) ! k)) (drop k cs)) \<le>
              length (drop k cs)"
          using less [of "drop k cs"] Cons by simp
        then show ?thesis using Cons Some Suc by simp
      qed
    qed
  qed
qed

lemma replace_placeholders_shorter:
  "replace_placeholders b s \<noteq> s \<Longrightarrow> length (replace_placeholders b s) < length s"
proof (induction s arbitrary: b)
  case Nil
  then show ?case by simp
next
  case (Cons c cs)
  show ?case
  proof (cases "if b then match_placeholder (c # cs) else None")
    case None
    then show ?thesis using Cons.IH [of "is_line_terminator c"] Cons.prems by simp
  next
    case (Some n)
    show ?thesis
    proof (cases n)
      case 0
      then show ?thesis using Cons.IH [of "is_line_terminator c"] Cons.prems Some by simp
    next
      case (Suc k)
      have "length (replace_placeholders (is_line_terminator ((c # cs) ! k)) (drop k cs)) \<le>
            length (drop k cs)"
        by (rule length_replace_placeholders)
      then show ?thesis using Some Suc by simp
    qed
  qed
qed

lemma match_junk_prefix_bounds:
  assumes "match_junk_prefix s = Some (j, k)"
  shows "j < k \<and> k < length s"
proof -
  from assms obtain c r q rest where
    a: "dropWhile is_space s = c # r" and b: "dropWhile is_junk_char r = q # rest"
    and j: "j = length (takeWhile is_space s)"
    and k: "k = length (takeWhile is_space s) + 1 + length (takeWhile is_junk_char r)"
    unfolding match_junk_prefix_def
    by (auto simp: Let_def split: list.splits if_splits)
  have "length s = length (takeWhile is_space s) + length (dropWhile is_space s)"
    by (metis length_append takeWhile_dropWhile_id)
  moreover have "length r = length (takeWhile is_junk_char r) + length (dropWhile is_junk_char r)"
    by (metis length_append takeWhile_dropWhile_id)
  ultimately have "length s =
      length (takeWhile is_space s) + 1 + length (takeWhile is_junk_char r) + 1 + length rest"
    using a b by simp
  then show ?thesis using j k by simp
qed

lemma length_replace_junk_prefixes: "length (replace_junk_prefixes b s) \<le> length s"
proof (induction "length s" arbitrary: b s rule: less_induct)
  case less
  show ?case
  proof (cases s)
    case Nil
    then show ?thesis by simp
  next
    case (Cons c cs)
    show ?thesis
    proof (cases "if b then match_junk_prefix (c # cs) else None")
      case None
      then show ?thesis using less [of cs "is_line_terminator c"] Cons by simp
    next
      case (Some jk)
      obtain j k where jk: "jk = (j, k)" by (cases jk)
      have m: "match_junk_prefix (c # cs) = Some (j, k)"
        using Some jk by (auto split: if_splits)
      have bd: "j < k" "k \<le> length cs" using match_junk_prefix_bounds [OF m] by simp_all
      have "length (replace_junk_prefixes False (drop k cs)) \<le> length (drop k cs)"
        using less [of "drop k cs"] Cons by simp
      then have "length (take j (c # cs) @ 34 # replace_junk_prefixes False (drop k cs)) \<le>
                 j + 1 + (length cs - k)" by simp
      then show ?thesis using Cons Some jk bd by simp
    qed
  qed
qed

lemma replace_junk_prefixes_shorter:
  "replace_junk_prefixes b s \<noteq> s \<Longrightarrow> length (replace_junk_prefixes b s) < length s"
proof (induction s arbitrary: b)
  case Nil
  then show ?case by simp
next
  case (Cons c cs)
  show ?case
  proof (cases "if b then match_junk_prefix (c # cs) else None")
    case None
    then show ?thesis using Cons.IH [of "is_line_terminator c"] Cons.prems by simp
  next
    case (Some jk)
    obtain j k where jk: "jk = (j, k)" by (cases jk)
    have m: "match_junk_prefix (c # cs) = Some (j, k)"
      using Some jk by (auto split: if_splits)
    have bd: "j < k" "k \<le> length cs" using match_junk_prefix_bounds [OF m] by simp_all
    have "length (replace_junk_prefixes False (drop k cs)) \<le> length (drop k cs)"
      by (rule length_replace_junk_prefixes)
    then have "length (take j (c # cs) @ 34 # replace_junk_prefixes False (drop k cs)) \<le>
               j + 1 + (length cs - k)" by simp
    then show ?thesis using Some jk bd by simp
  qed
qed

lemma length_join_filter: "length (join_lines (filter P ls)) \<le> length (join_lines ls)"
proof (induction ls)
  case Nil
  then show ?case by simp
next
  case (Cons l ls)
  have j: "length (join_lines (l # ls)) =
           (if ls = [] then length l else length l + 1 + length (join_lines ls))"
    by (cases ls) simp_all
  have f: "length (join_lines (l # filter P ls)) \<le> length l + 1 + length (join_lines (filter P ls))"
    by (cases "filter P ls") simp_all
  show ?case
  proof (cases "ls = []")
    case True
    then show ?thesis by simp
  next
    case False
    then show ?thesis using Cons f j by (cases "P l") simp_all
  qed
qed

lemma length_filter_lines: "length (join_lines (filter P (split_lines s))) \<le> length s"
  using length_join_filter [of P "split_lines s"] by (simp add: join_split_lines)

lemma length_trim: "length (trim s) \<le> length s"
proof -
  have "length (trimEnd (trimStart s)) \<le> length (trimStart s)"
    unfolding trimEnd_def using length_dropWhile_le [of is_space "rev (trimStart s)"] by simp
  moreover have "length (trimStart s) \<le> length s"
    unfolding trimStart_def by (rule length_dropWhile_le)
  ultimately show ?thesis unfolding trim_def by simp
qed

lemma length_trimEnd: "length (trimEnd s) \<le> length s"
  unfolding trimEnd_def using length_dropWhile_le [of is_space "rev s"] by simp

lemma unwrap_fence_shorter:
  "unwrap_fence s \<noteq> s \<Longrightarrow> length (unwrap_fence s) < length s"
proof -
  assume ne: "unwrap_fence s \<noteq> s"
  then obtain g where g: "fence_group2 s = Some g" and u: "unwrap_fence s = trim g"
    unfolding unwrap_fence_def by (auto split: option.splits if_splits)
  have six: "6 \<le> length s"
    and gd: "g = trimEnd (dropWhile is_space (dropWhile is_word (take (length s - 6) (drop 3 s))))"
    using g unfolding fence_group2_def by (auto split: if_splits)
  have "length g \<le> length (dropWhile is_space (dropWhile is_word (take (length s - 6) (drop 3 s))))"
    unfolding gd by (rule length_trimEnd)
  also have "\<dots> \<le> length (dropWhile is_word (take (length s - 6) (drop 3 s)))"
    by (rule length_dropWhile_le)
  also have "\<dots> \<le> length (take (length s - 6) (drop 3 s))" by (rule length_dropWhile_le)
  also have "\<dots> \<le> length s - 6" by simp
  finally have "length g \<le> length s - 6" .
  then have "length (trim g) < length s"
    using length_trim [of g] six by simp
  then show ?thesis using u by simp
qed

lemma length_sanitize_tail:
  "length (trim (collapse_blank_lines (join_lines (filter keep_line (split_lines s))))) \<le>
   length s"
proof -
  have "length (trim (collapse_blank_lines (join_lines (filter keep_line (split_lines s))))) \<le>
        length (collapse_blank_lines (join_lines (filter keep_line (split_lines s))))"
    by (rule length_trim)
  also have "\<dots> \<le> length (join_lines (filter keep_line (split_lines s)))"
    by (rule length_collapse)
  also have "\<dots> \<le> length s" by (rule length_filter_lines)
  finally show ?thesis .
qed

lemma length_sanitize_lines: "length (sanitize_lines s) \<le> length s"
proof -
  have "length (sanitize_lines s) \<le>
        length (replace_junk_prefixes True (replace_placeholders True s))"
    unfolding sanitize_lines_def Let_def by (rule length_sanitize_tail)
  also have "\<dots> \<le> length (replace_placeholders True s)"
    by (rule length_replace_junk_prefixes)
  also have "\<dots> \<le> length s" by (rule length_replace_placeholders)
  finally show ?thesis .
qed

lemma sanitize_lines_fixed_steps:
  assumes "sanitize_lines y = y"
  shows "replace_placeholders True y = y \<and> replace_junk_prefixes True y = y"
proof -
  have r1: "replace_placeholders True y = y"
  proof (rule ccontr)
    assume "replace_placeholders True y \<noteq> y"
    then have "length (replace_placeholders True y) < length y"
      by (rule replace_placeholders_shorter)
    moreover have "length (sanitize_lines y) \<le>
        length (replace_junk_prefixes True (replace_placeholders True y))"
      unfolding sanitize_lines_def Let_def by (rule length_sanitize_tail)
    moreover have "length (replace_junk_prefixes True (replace_placeholders True y)) \<le>
        length (replace_placeholders True y)"
      by (rule length_replace_junk_prefixes)
    ultimately show False using assms by simp
  qed
  have r2: "replace_junk_prefixes True y = y"
  proof (rule ccontr)
    assume "replace_junk_prefixes True y \<noteq> y"
    then have "length (replace_junk_prefixes True y) < length y"
      by (rule replace_junk_prefixes_shorter)
    moreover have "length (sanitize_lines y) \<le> length (replace_junk_prefixes True y)"
      unfolding sanitize_lines_def Let_def r1 by (rule length_sanitize_tail)
    ultimately show False using assms by simp
  qed
  show ?thesis using r1 r2 by blast
qed

text \<open>
  A second pass leaves the result of the first alone exactly when it finds no fence to unwrap
  and no match of either regular expression.
\<close>

lemma second_pass_changed:
  assumes "sanitize (sanitize x) = sanitize x"
  shows "unwrap_fence (sanitize x) = sanitize x \<and>
         replace_placeholders True (sanitize x) = sanitize x \<and>
         replace_junk_prefixes True (sanitize x) = sanitize x"
proof -
  let ?y = "sanitize x"
  have s: "sanitize ?y = sanitize_lines (unwrap_fence ?y)"
    using trim_sanitize [of x] by (simp add: sanitize_def [of ?y])
  have u: "unwrap_fence ?y = ?y"
  proof (rule ccontr)
    assume "unwrap_fence ?y \<noteq> ?y"
    then have "length (unwrap_fence ?y) < length ?y" by (rule unwrap_fence_shorter)
    moreover have "length (sanitize ?y) \<le> length (unwrap_fence ?y)"
      unfolding s by (rule length_sanitize_lines)
    ultimately show False using assms by simp
  qed
  then have "sanitize_lines ?y = ?y" using s assms by simp
  then show ?thesis using sanitize_lines_fixed_steps u by blast
qed

lemma second_pass_iff:
  "(sanitize (sanitize x) = sanitize x) =
   (unwrap_fence (sanitize x) = sanitize x \<and>
    replace_placeholders True (sanitize x) = sanitize x \<and>
    replace_junk_prefixes True (sanitize x) = sanitize x)"
  using second_pass_changed [of x] second_pass_unchanged [of x] by blast

text \<open>Dropping a line can also bring a placeholder name and its brackets together.\<close>

lemma dropped_line_placeholder:
  \<open>sanitize (js ''_:\<newline>junk\<newline>[]'') = js ''_:\<newline>[]'' \<and>
   replace_placeholders True (js ''_:\<newline>[]'') = [] \<and>
   sanitize (sanitize (js ''_:\<newline>junk\<newline>[]'')) = []\<close>
  by code_simp


lemma trim_leading_spaces: "list_all is_space w \<Longrightarrow> trim (w @ s) = trim s"
  by (induction w) (simp_all add: trim_space_Cons)

lemma sanitize_leading_spaces: "list_all is_space w \<Longrightarrow> sanitize (w @ s) = sanitize s"
  by (simp add: sanitize_def trim_leading_spaces)

lemma json_ws_all_space: "list_all json_ws w \<Longrightarrow> list_all is_space w"
  unfolding list_all_iff using json_ws_is_space by blast

subsection \<open>The members of a parsed object\<close>

lemma analyze_try_object:
  assumes "sanitizeAndParseJson rawJson = Returns parsedData" "as_object parsedData = Some p0"
  shows "analyze_try m (CallReturns rawJson) =
           Returns (set_member (js ''complementaryProducts'')
                      (or_empty_array (get_member (js ''complementaryProducts'') p0))
                      (set_member (js ''similarProducts'')
                         (or_empty_array (get_member (js ''similarProducts'') p0)) p0))"
proof -
  have "js_truthy parsedData" using assms(2) by (cases parsedData) simp_all
  then show ?thesis
    using assms
    by (simp add: analyze_try_def Let_def get_set_member_other member_names_differ [symmetric])
qed

lemma analyze_try_primitive:
  assumes "sanitizeAndParseJson rawJson = Returns parsedData" "as_object parsedData = None"
  shows "\<exists>e. analyze_try m (CallReturns rawJson) = Throws e"
  using assms by (simp add: analyze_try_def)

section \<open>The claims\<close>

text \<open>
  C1. Whatever the body of \<open>try\<close> in \<open>analyzeImageAndSuggestProducts\<close> throws, the promise is
  resolved (not rejected) with the object that the \<open>catch\<close> block builds. A failure of the
  model call is thrown as it is, and a parse failure (\<open>sanitizeAndParseJson\<close> returning
  \<open>null\<close>) throws an \<open>Error\<close> with a fixed message. The object has a non-empty \<open>analysis\<close>
  string that embeds the message of the error, and two empty arrays \<open>similarProducts\<close> and
  \<open>complementaryProducts\<close>. \<open>sendMessageInChat\<close> resolves with the apology followed by the
  message of the error.
\<close>

theorem errors_become_data:
  "(analyze_try typeErrorMessage call = Throws error \<longrightarrow>
      analyzeImageAndSuggestProducts typeErrorMessage call = Resolved (analyze_catch error)) \<and>
   analyze_try typeErrorMessage (CallThrows error) = Throws error \<and>
   (sanitizeAndParseJson rawJson = Returns JNull \<longrightarrow>
      analyze_try typeErrorMessage (CallReturns rawJson) =
        Throws (ErrorInstance (js ''Failed to parse Gemini response or response was empty.''))) \<and>
   get_member (js ''analysis'') (analyze_catch error) =
     Some (JStr (js ''Error during analysis: '' @ analysis_error_message error @
                 js ''. Please try a different image or prompt.'')) \<and>
   js ''Error during analysis: '' @ analysis_error_message error @
     js ''. Please try a different image or prompt.'' \<noteq> [] \<and>
   analysis_error_message (ErrorInstance message) = message \<and>
   get_member (js ''similarProducts'') (analyze_catch error) = Some (JArr []) \<and>
   get_member (js ''complementaryProducts'') (analyze_catch error) = Some (JArr []) \<and>
   sendMessageInChat (CallThrows error) =
     Resolved (js ''I apologize, but I encountered an error: '' @ chat_error_message error) \<and>
   chat_error_message (ErrorInstance message) = message"
  by (simp add: analyzeImageAndSuggestProducts_def analyze_catch_members analyze_try_def
      sendMessageInChat_def analysis_error_message_def chat_error_message_def
      analysis_text_nonempty)

theorem errors_become_data_witness:
  "analyze_try [] (CallThrows (ErrorInstance (js ''quota''))) =
     Throws (ErrorInstance (js ''quota'')) \<and>
   analyzeImageAndSuggestProducts [] (CallThrows (ErrorInstance (js ''quota''))) =
     Resolved (analyze_catch (ErrorInstance (js ''quota''))) \<and>
   sanitizeAndParseJson (js ''oops'') = Returns JNull \<and>
   analyze_try [] (CallReturns (js ''oops'')) =
     Throws (ErrorInstance (js ''Failed to parse Gemini response or response was empty.''))"
proof -
  have p: "sanitizeAndParseJson (js ''oops'') = Returns JNull" by code_simp
  show ?thesis
    using errors_become_data [of "[]" "CallThrows (ErrorInstance (js ''quota''))"
        "ErrorInstance (js ''quota'')" "js ''oops''"] p
    by simp
qed

text \<open>
  C4. For every input string, \<open>sanitizeAndParseJson\<close> returns a value (a decoded value or
  \<open>null\<close>): no path of the function ends in a throw, and every function of the model is
  total, so the call terminates. For the empty string and for a string of white space only,
  the value is \<open>null\<close>.
\<close>

theorem sanitizeAndParseJson_total:
  "(\<exists>v. sanitizeAndParseJson s = Returns v) \<and>
   (list_all is_space s \<longrightarrow> sanitizeAndParseJson s = Returns JNull)"
  by (simp add: sanitizeAndParseJson_def parse_sanitized_returns trim_all_space
      sanitize_of_trim_empty parse_sanitized_empty)

theorem sanitizeAndParseJson_total_witness:
  "list_all is_space (js ''  '') \<and> sanitizeAndParseJson (js ''  '') = Returns JNull"
  using sanitizeAndParseJson_total [of "js ''  ''"] by (simp add: js_def is_space_def)

text \<open>
  C8, as stated, fails: when the model's JSON gives \<open>similarProducts\<close> a truthy value that is
  not an array, the returned object keeps that value. Here the member is the number 1.
\<close>

theorem product_member_not_array_counterexample:
  \<open>analyzeImageAndSuggestProducts [] (CallReturns (js ''{"similarProducts":1}'')) =
     Resolved (ObjectValue [(js ''similarProducts'', JNum 1),
                            (js ''complementaryProducts'', JArr [])])\<close>
proof -
  have p: \<open>sanitizeAndParseJson (js ''{"similarProducts":1}'') =
             Returns (JObj [(js ''similarProducts'', JNum 1)])\<close>
    by code_simp
  show ?thesis
    by (simp add: analyzeImageAndSuggestProducts_def analyze_try_def p or_empty_array_def
        member_names_differ member_names_differ [symmetric])
qed

text \<open>
  C8, amended. Every execution of \<open>analyzeImageAndSuggestProducts\<close> resolves with an object
  whose members \<open>similarProducts\<close> and \<open>complementaryProducts\<close> are both present (never
  \<open>undefined\<close>) and truthy (never \<open>null\<close>). On every failure path (the body of \<open>try\<close>
  throws, which it does when the model call fails and when the parsed value is \<open>null\<close>,
  another falsy value or any other primitive) both are the empty array. On the success path
  (the parsed value is an object or an array) each of the two is the value that the parsed
  value had for that member when this value is truthy, and the empty array when the member is
  missing or falsy: so it is an array whenever the model omitted the member or supplied an
  array, and a truthy value that is not an array is kept as it is.
\<close>

theorem product_members_present:
  "(\<exists>r sim comp.
      analyzeImageAndSuggestProducts typeErrorMessage call = Resolved r \<and>
      get_member (js ''similarProducts'') r = Some sim \<and> js_truthy sim \<and>
      get_member (js ''complementaryProducts'') r = Some comp \<and> js_truthy comp) \<and>
   (analyze_try typeErrorMessage call = Throws error \<longrightarrow>
      analyzeImageAndSuggestProducts typeErrorMessage call = Resolved (analyze_catch error) \<and>
      get_member (js ''similarProducts'') (analyze_catch error) = Some (JArr []) \<and>
      get_member (js ''complementaryProducts'') (analyze_catch error) = Some (JArr [])) \<and>
   (sanitizeAndParseJson rawJson = Returns primitive \<and> as_object primitive = None \<longrightarrow>
      (\<exists>e. analyze_try typeErrorMessage (CallReturns rawJson) = Throws e)) \<and>
   (sanitizeAndParseJson rawJson' = Returns parsedData \<and> as_object parsedData = Some p0 \<and>
    (k = js ''similarProducts'' \<or> k = js ''complementaryProducts'') \<longrightarrow>
      (\<exists>r. analyzeImageAndSuggestProducts typeErrorMessage (CallReturns rawJson') = Resolved r \<and>
           get_member k r =
             Some (case get_member k p0 of
                     None \<Rightarrow> JArr []
                   | Some member \<Rightarrow> if js_truthy member then member else JArr []) \<and>
           (get_member k p0 = None \<or> (\<exists>items. get_member k p0 = Some (JArr items)) \<longrightarrow>
              (\<exists>items. get_member k r = Some (JArr items)))))"
proof (intro conjI impI)
  show "\<exists>r sim comp.
      analyzeImageAndSuggestProducts typeErrorMessage call = Resolved r \<and>
      get_member (js ''similarProducts'') r = Some sim \<and> js_truthy sim \<and>
      get_member (js ''complementaryProducts'') r = Some comp \<and> js_truthy comp"
  proof (cases "analyze_try typeErrorMessage call")
    case (Returns r)
    from analyze_try_members [OF this] obtain p0 where
      r: "r = set_member (js ''complementaryProducts'')
                    (or_empty_array (get_member (js ''complementaryProducts'')
                       (set_member (js ''similarProducts'')
                          (or_empty_array (get_member (js ''similarProducts'') p0)) p0)))
                    (set_member (js ''similarProducts'')
                       (or_empty_array (get_member (js ''similarProducts'') p0)) p0)" ..
    have "get_member (js ''similarProducts'') r =
            Some (or_empty_array (get_member (js ''similarProducts'') p0))"
      by (simp add: r get_set_member_same get_set_member_other member_names_differ)
    moreover have "\<exists>c. get_member (js ''complementaryProducts'') r = Some (or_empty_array c)"
      unfolding r get_set_member_same by blast
    ultimately show ?thesis
      using Returns by (auto simp: analyzeImageAndSuggestProducts_def or_empty_array_truthy)
  next
    case (Throws e)
    then show ?thesis
      by (simp add: analyzeImageAndSuggestProducts_def analyze_catch_members)
  qed
next
  assume "analyze_try typeErrorMessage call = Throws error"
  then show "analyzeImageAndSuggestProducts typeErrorMessage call =
               Resolved (analyze_catch error)"
    by (simp add: analyzeImageAndSuggestProducts_def)
next
  show "get_member (js ''similarProducts'') (analyze_catch error) = Some (JArr [])"
    by (rule analyze_catch_members)
next
  show "get_member (js ''complementaryProducts'') (analyze_catch error) = Some (JArr [])"
    by (rule analyze_catch_members)
next
  assume "sanitizeAndParseJson rawJson = Returns primitive \<and> as_object primitive = None"
  then show "\<exists>e. analyze_try typeErrorMessage (CallReturns rawJson) = Throws e"
    using analyze_try_primitive by blast
next
  assume h: "sanitizeAndParseJson rawJson' = Returns parsedData \<and>
             as_object parsedData = Some p0 \<and>
             (k = js ''similarProducts'' \<or> k = js ''complementaryProducts'')"
  let ?r = "set_member (js ''complementaryProducts'')
              (or_empty_array (get_member (js ''complementaryProducts'') p0))
              (set_member (js ''similarProducts'')
                 (or_empty_array (get_member (js ''similarProducts'') p0)) p0)"
  have t: "analyze_try typeErrorMessage (CallReturns rawJson') = Returns ?r"
    using analyze_try_object h by blast
  have res: "analyzeImageAndSuggestProducts typeErrorMessage (CallReturns rawJson') =
             Resolved ?r"
    by (simp add: analyzeImageAndSuggestProducts_def t)
  have m: "get_member k ?r = Some (or_empty_array (get_member k p0))"
    using h by (auto simp: get_set_member_same get_set_member_other member_names_differ)
  have v: "get_member k ?r =
             Some (case get_member k p0 of
                     None \<Rightarrow> JArr []
                   | Some member \<Rightarrow> if js_truthy member then member else JArr [])"
    unfolding m by (simp add: or_empty_array_def)
  have ar: "get_member k p0 = None \<or> (\<exists>items. get_member k p0 = Some (JArr items)) \<longrightarrow>
              (\<exists>items. get_member k ?r = Some (JArr items))"
    unfolding m by (auto simp: or_empty_array_def)
  show "\<exists>r. analyzeImageAndSuggestProducts typeErrorMessage (CallReturns rawJson') = Resolved r \<and>
           get_member k r =
             Some (case get_member k p0 of
                     None \<Rightarrow> JArr []
                   | Some member \<Rightarrow> if js_truthy member then member else JArr []) \<and>
           (get_member k p0 = None \<or> (\<exists>items. get_member k p0 = Some (JArr items)) \<longrightarrow>
              (\<exists>items. get_member k r = Some (JArr items)))"
    using res v ar by blast
qed

theorem product_members_present_witness:
  \<open>analyze_try [] (CallThrows (ErrorInstance (js ''quota''))) =
     Throws (ErrorInstance (js ''quota'')) \<and>
   analyzeImageAndSuggestProducts [] (CallThrows (ErrorInstance (js ''quota''))) =
     Resolved (analyze_catch (ErrorInstance (js ''quota''))) \<and>
   sanitizeAndParseJson (js ''7'') = Returns (JNum 7) \<and> as_object (JNum 7) = None \<and>
   (\<exists>e. analyze_try [] (CallReturns (js ''7'')) = Throws e) \<and>
   sanitizeAndParseJson (js ''{"similarProducts":[{"id":"sim1"}],"complementaryProducts":null}'') =
     Returns (JObj [(js ''similarProducts'', JArr [JObj [(js ''id'', JStr (js ''sim1''))]]),
                 (js ''complementaryProducts'', JNull)]) \<and>
   as_object (JObj [(js ''similarProducts'', JArr [JObj [(js ''id'', JStr (js ''sim1''))]]),
                 (js ''complementaryProducts'', JNull)]) =
     Some (ObjectValue [(js ''similarProducts'', JArr [JObj [(js ''id'', JStr (js ''sim1''))]]),
                        (js ''complementaryProducts'', JNull)]) \<and>
   get_member (js ''similarProducts'')
     (ObjectValue [(js ''similarProducts'', JArr [JObj [(js ''id'', JStr (js ''sim1''))]]),
                        (js ''complementaryProducts'', JNull)]) =
     Some (JArr [JObj [(js ''id'', JStr (js ''sim1''))]]) \<and>
   (\<exists>r. analyzeImageAndSuggestProducts []
          (CallReturns (js ''{"similarProducts":[{"id":"sim1"}],"complementaryProducts":null}'')) =
          Resolved r \<and>
        get_member (js ''similarProducts'') r =
          Some (JArr [JObj [(js ''id'', JStr (js ''sim1''))]])) \<and>
   get_member (js ''complementaryProducts'')
     (ObjectValue [(js ''similarProducts'', JArr [JObj [(js ''id'', JStr (js ''sim1''))]]),
                        (js ''complementaryProducts'', JNull)]) = Some JNull \<and>
   (\<exists>r. analyzeImageAndSuggestProducts []
          (CallReturns (js ''{"similarProducts":[{"id":"sim1"}],"complementaryProducts":null}'')) =
          Resolved r \<and>
        get_member (js ''complementaryProducts'') r = Some (JArr []))\<close>
proof -
  have a: \<open>analyze_try [] (CallThrows (ErrorInstance (js ''quota''))) =
     Throws (ErrorInstance (js ''quota''))\<close> by (simp add: analyze_try_def)
  have b: \<open>sanitizeAndParseJson (js ''7'') = Returns (JNum 7)\<close> by code_simp
  have c: \<open>sanitizeAndParseJson (js ''{"similarProducts":[{"id":"sim1"}],"complementaryProducts":null}'') =
     Returns (JObj [(js ''similarProducts'', JArr [JObj [(js ''id'', JStr (js ''sim1''))]]),
                 (js ''complementaryProducts'', JNull)])\<close> by code_simp
  have d: \<open>get_member (js ''similarProducts'')
             (ObjectValue [(js ''similarProducts'', JArr [JObj [(js ''id'', JStr (js ''sim1''))]]),
                        (js ''complementaryProducts'', JNull)]) =
           Some (JArr [JObj [(js ''id'', JStr (js ''sim1''))]])\<close> by simp
  have e: \<open>get_member (js ''complementaryProducts'')
             (ObjectValue [(js ''similarProducts'', JArr [JObj [(js ''id'', JStr (js ''sim1''))]]),
                        (js ''complementaryProducts'', JNull)]) = Some JNull\<close>
    by (simp add: member_names_differ [symmetric])
  have f: \<open>as_object (JObj [(js ''similarProducts'', JArr [JObj [(js ''id'', JStr (js ''sim1''))]]),
                 (js ''complementaryProducts'', JNull)]) =
     Some (ObjectValue [(js ''similarProducts'', JArr [JObj [(js ''id'', JStr (js ''sim1''))]]),
                        (js ''complementaryProducts'', JNull)])\<close> by simp
  have h: \<open>as_object (JNum 7) = None\<close> by simp
  have s: \<open>\<exists>r. analyzeImageAndSuggestProducts []
          (CallReturns (js ''{"similarProducts":[{"id":"sim1"}],"complementaryProducts":null}'')) =
          Resolved r \<and>
        get_member (js ''similarProducts'') r =
          Some (JArr [JObj [(js ''id'', JStr (js ''sim1''))]])\<close>
  proof -
    from product_members_present
      [of "[]" "CallThrows (ErrorInstance (js ''quota''))" "ErrorInstance (js ''quota'')"
          "js ''7''" "JNum 7"
          \<open>js ''{"similarProducts":[{"id":"sim1"}],"complementaryProducts":null}''\<close>
          "JObj [(js ''similarProducts'', JArr [JObj [(js ''id'', JStr (js ''sim1''))]]),
                 (js ''complementaryProducts'', JNull)]"
          "ObjectValue [(js ''similarProducts'', JArr [JObj [(js ''id'', JStr (js ''sim1''))]]),
                        (js ''complementaryProducts'', JNull)]"
          "js ''similarProducts''"]
      c f
    obtain r where r: \<open>analyzeImageAndSuggestProducts []
          (CallReturns (js ''{"similarProducts":[{"id":"sim1"}],"complementaryProducts":null}'')) = Resolved r\<close>
      and m: \<open>get_member (js ''similarProducts'') r =
             Some (case get_member (js ''similarProducts'')
                     (ObjectValue [(js ''similarProducts'', JArr [JObj [(js ''id'', JStr (js ''sim1''))]]),
                        (js ''complementaryProducts'', JNull)]) of
                     None \<Rightarrow> JArr []
                   | Some member \<Rightarrow> if js_truthy member then member else JArr [])\<close>
      by blast
    have \<open>get_member (js ''similarProducts'') r =
          Some (JArr [JObj [(js ''id'', JStr (js ''sim1''))]])\<close>
      unfolding m d by simp
    then show ?thesis using r by blast
  qed
  have t: \<open>\<exists>r. analyzeImageAndSuggestProducts []
          (CallReturns (js ''{"similarProducts":[{"id":"sim1"}],"complementaryProducts":null}'')) =
          Resolved r \<and>
        get_member (js ''complementaryProducts'') r = Some (JArr [])\<close>
  proof -
    from product_members_present
      [of "[]" "CallThrows (ErrorInstance (js ''quota''))" "ErrorInstance (js ''quota'')"
          "js ''7''" "JNum 7"
          \<open>js ''{"similarProducts":[{"id":"sim1"}],"complementaryProducts":null}''\<close>
          "JObj [(js ''similarProducts'', JArr [JObj [(js ''id'', JStr (js ''sim1''))]]),
                 (js ''complementaryProducts'', JNull)]"
          "ObjectValue [(js ''similarProducts'', JArr [JObj [(js ''id'', JStr (js ''sim1''))]]),
                        (js ''complementaryProducts'', JNull)]"
          "js ''complementaryProducts''"]
      c f
    obtain r where r: \<open>analyzeImageAndSuggestProducts []
          (CallReturns (js ''{"similarProducts":[{"id":"sim1"}],"complementaryProducts":null}'')) = Resolved r\<close>
      and m: \<open>get_member (js ''complementaryProducts'') r =
             Some (case get_member (js ''complementaryProducts'')
                     (ObjectValue [(js ''similarProducts'', JArr [JObj [(js ''id'', JStr (js ''sim1''))]]),
                        (js ''complementaryProducts'', JNull)]) of
                     None \<Rightarrow> JArr []
                   | Some member \<Rightarrow> if js_truthy member then member else JArr [])\<close>
      by blast
    have \<open>get_member (js ''complementaryProducts'') r = Some (JArr [])\<close>
      unfolding m e by simp
    then show ?thesis using r by blast
  qed
  have g: \<open>analyzeImageAndSuggestProducts [] (CallThrows (ErrorInstance (js ''quota''))) =
     Resolved (analyze_catch (ErrorInstance (js ''quota''))) \<and>
     (\<exists>e. analyze_try [] (CallReturns (js ''7'')) = Throws e)\<close>
    using product_members_present
      [of "[]" "CallThrows (ErrorInstance (js ''quota''))" "ErrorInstance (js ''quota'')"
          "js ''7''" "JNum 7"
          \<open>js ''{"similarProducts":[{"id":"sim1"}],"complementaryProducts":null}''\<close>
          "JObj [(js ''similarProducts'', JArr [JObj [(js ''id'', JStr (js ''sim1''))]]),
                 (js ''complementaryProducts'', JNull)]"
          "ObjectValue [(js ''similarProducts'', JArr [JObj [(js ''id'', JStr (js ''sim1''))]]),
                        (js ''complementaryProducts'', JNull)]"
          "js ''similarProducts''"]
      a b h
    by blast
  show ?thesis using a b c d e f g h s t by blast
qed

text \<open>
  C10. \<open>sanitizeAndParseJson\<close> does not check the decoded value against the shape that the
  caller expects. A result other than \<open>null\<close> is exactly what \<open>JSON.parse\<close> gave for the
  sanitized text or for the extracted prefix of it; and conversely whatever \<open>JSON.parse\<close>
  gives for the sanitized text is returned, and when that parse fails, whatever it gives for
  the extracted prefix. So for every input whose sanitized text parses as a number, a string,
  a boolean or an array, that value, which is neither \<open>null\<close> nor an object, is returned as
  a successful parse: the inputs \<open>5\<close>, \<open>"x"\<close>, \<open>true\<close> and \<open>[1,2]\<close> yield the number 5,
  the string, the boolean and the array where an object was expected.
\<close>

theorem sanitizeAndParseJson_unvalidated:
  \<open>(sanitizeAndParseJson s = Returns v \<and> v \<noteq> JNull \<longrightarrow>
      JSON_parse (sanitize s) = Inr v \<or>
      (\<exists>p. extractBalancedRegion (sanitize s) = Some p \<and> JSON_parse p = Inr v)) \<and>
   (JSON_parse (sanitize t) = Inr w \<longrightarrow> sanitizeAndParseJson t = Returns w) \<and>
   (JSON_parse (sanitize t') = Inl SyntaxError \<and>
    extractBalancedRegion (sanitize t') = Some p' \<and> JSON_parse p' = Inr w' \<longrightarrow>
      sanitizeAndParseJson t' = Returns w') \<and>
   (JSON_parse (sanitize i) = Inr x \<and>
    ((\<exists>q. x = JNum q) \<or> (\<exists>str. x = JStr str) \<or> (\<exists>b. x = JBool b) \<or> (\<exists>items. x = JArr items)) \<longrightarrow>
      sanitizeAndParseJson i = Returns x \<and> x \<noteq> JNull \<and> (\<forall>members. x \<noteq> JObj members)) \<and>
   sanitizeAndParseJson (js ''5'') = Returns (JNum 5) \<and>
   sanitizeAndParseJson (js ''"x"'') = Returns (JStr (js ''x'')) \<and>
   sanitizeAndParseJson (js ''true'') = Returns (JBool True) \<and>
   sanitizeAndParseJson (js ''[1,2]'') = Returns (JArr [JNum 1, JNum 2])\<close>
proof (intro conjI impI)
  assume "sanitizeAndParseJson s = Returns v \<and> v \<noteq> JNull"
  then show "JSON_parse (sanitize s) = Inr v \<or>
      (\<exists>p. extractBalancedRegion (sanitize s) = Some p \<and> JSON_parse p = Inr v)"
    by (auto simp: sanitizeAndParseJson_def parse_sanitized_def
        split: sum.splits option.splits if_splits)
next
  assume "JSON_parse (sanitize t) = Inr w"
  then show "sanitizeAndParseJson t = Returns w"
    by (simp add: sanitizeAndParseJson_def parse_sanitized_def)
next
  assume h: "JSON_parse (sanitize t') = Inl SyntaxError \<and>
    extractBalancedRegion (sanitize t') = Some p' \<and> JSON_parse p' = Inr w'"
  then have "sanitize t' \<noteq> []" by (auto simp: extractBalancedRegion_def expected_pair_def
        trimStart_def)
  then show "sanitizeAndParseJson t' = Returns w'"
    using h by (simp add: sanitizeAndParseJson_def parse_sanitized_def)
next
  assume h: "JSON_parse (sanitize i) = Inr x \<and>
    ((\<exists>q. x = JNum q) \<or> (\<exists>str. x = JStr str) \<or> (\<exists>b. x = JBool b) \<or> (\<exists>items. x = JArr items))"
  then show "sanitizeAndParseJson i = Returns x"
    by (simp add: sanitizeAndParseJson_def parse_sanitized_def)
  show "x \<noteq> JNull" using h by auto
  show "\<forall>members. x \<noteq> JObj members" using h by auto
next
  show \<open>sanitizeAndParseJson (js ''5'') = Returns (JNum 5)\<close> by code_simp
  show \<open>sanitizeAndParseJson (js ''"x"'') = Returns (JStr (js ''x''))\<close> by code_simp
  show \<open>sanitizeAndParseJson (js ''true'') = Returns (JBool True)\<close> by code_simp
  show \<open>sanitizeAndParseJson (js ''[1,2]'') = Returns (JArr [JNum 1, JNum 2])\<close> by code_simp
qed

theorem sanitizeAndParseJson_unvalidated_witness:
  \<open>sanitizeAndParseJson (js ''5'') = Returns (JNum 5) \<and> JNum 5 \<noteq> JNull \<and>
   (JSON_parse (sanitize (js ''5'')) = Inr (JNum 5) \<or>
    (\<exists>p. extractBalancedRegion (sanitize (js ''5'')) = Some p \<and> JSON_parse p = Inr (JNum 5))) \<and>
   JSON_parse (sanitize (js ''{"foo": [0]}'')) = Inr (JObj [(js ''foo'', JArr [JNum 0])]) \<and>
   sanitizeAndParseJson (js ''{"foo": [0]}'') = Returns (JObj [(js ''foo'', JArr [JNum 0])]) \<and>
   JSON_parse (sanitize (js ''[7] and more'')) = Inl SyntaxError \<and>
   extractBalancedRegion (sanitize (js ''[7] and more'')) = Some (js ''[7]'') \<and>
   JSON_parse (js ''[7]'') = Inr (JArr [JNum 7]) \<and>
   sanitizeAndParseJson (js ''[7] and more'') = Returns (JArr [JNum 7]) \<and>
   JSON_parse (sanitize (js ''```\<newline>"sold out"\<newline>```'')) = Inr (JStr (js ''sold out'')) \<and>
   ((\<exists>q. JStr (js ''sold out'') = JNum q) \<or> (\<exists>str. JStr (js ''sold out'') = JStr str) \<or>
    (\<exists>b. JStr (js ''sold out'') = JBool b) \<or> (\<exists>items. JStr (js ''sold out'') = JArr items)) \<and>
   sanitizeAndParseJson (js ''```\<newline>"sold out"\<newline>```'') = Returns (JStr (js ''sold out''))\<close>
proof -
  have a: \<open>sanitizeAndParseJson (js ''5'') = Returns (JNum 5)\<close> by code_simp
  have b: \<open>JSON_parse (sanitize (js ''{"foo": [0]}'')) = Inr (JObj [(js ''foo'', JArr [JNum 0])])\<close>
    by code_simp
  have c: \<open>JSON_parse (sanitize (js ''[7] and more'')) = Inl SyntaxError\<close> by code_simp
  have d: \<open>extractBalancedRegion (sanitize (js ''[7] and more'')) = Some (js ''[7]'')\<close>
    by code_simp
  have e: \<open>JSON_parse (js ''[7]'') = Inr (JArr [JNum 7])\<close> by code_simp
  have f: \<open>JSON_parse (sanitize (js ''```\<newline>"sold out"\<newline>```'')) = Inr (JStr (js ''sold out''))\<close>
    by code_simp
  show ?thesis
    using sanitizeAndParseJson_unvalidated
      [of "js ''5''" "JNum 5" \<open>js ''{"foo": [0]}''\<close> "JObj [(js ''foo'', JArr [JNum 0])]"
          "js ''[7] and more''" "js ''[7]''" "JArr [JNum 7]"
          \<open>js ''```\<newline>"sold out"\<newline>```''\<close> "JStr (js ''sold out'')"]
      a b c d e f
    by simp
qed

text \<open>
  C7. Wrapping a well-formed JSON text in a fenced code block that spans the whole string
  (the opening fence, a language tag of word characters or none, a line feed, the text, a line
  feed, the closing fence) does not change the result of \<open>sanitizeAndParseJson\<close>; and the
  fenced input with the tag \<open>json\<close> around \<open>{"a":1}\<close> yields the object with member
  \<open>a\<close> equal to 1.
\<close>

theorem fence_transparent:
  \<open>(list_all is_word tag \<and> JSON_parse j = Inr v \<longrightarrow>
      sanitizeAndParseJson (fenced_block tag j) = sanitizeAndParseJson j) \<and>
   sanitizeAndParseJson (js ''```json\<newline>{"a":1}\<newline>```'') = Returns (JObj [(js ''a'', JNum 1)])\<close>
proof
  show "list_all is_word tag \<and> JSON_parse j = Inr v \<longrightarrow>
      sanitizeAndParseJson (fenced_block tag j) = sanitizeAndParseJson j"
    using JSON_parse_trim_hd [of j v]
    by (auto simp: sanitizeAndParseJson_def sanitize_fenced_block)
next
  show \<open>sanitizeAndParseJson (js ''```json\<newline>{"a":1}\<newline>```'') = Returns (JObj [(js ''a'', JNum 1)])\<close>
    by code_simp
qed

theorem fence_transparent_witness:
  \<open>list_all is_word (js ''json'') \<and>
   JSON_parse (js ''{"a":1}'') = Inr (JObj [(js ''a'', JNum 1)]) \<and>
   fenced_block (js ''json'') (js ''{"a":1}'') = js ''```json\<newline>{"a":1}\<newline>```'' \<and>
   sanitizeAndParseJson (fenced_block (js ''json'') (js ''{"a":1}'')) =
     sanitizeAndParseJson (js ''{"a":1}'')\<close>
proof -
  have a: \<open>list_all is_word (js ''json'')\<close> by code_simp
  have b: \<open>JSON_parse (js ''{"a":1}'') = Inr (JObj [(js ''a'', JNum 1)])\<close> by code_simp
  have c: \<open>fenced_block (js ''json'') (js ''{"a":1}'') = js ''```json\<newline>{"a":1}\<newline>```''\<close>
    by code_simp
  show ?thesis
    using fence_transparent [of "js ''json''" \<open>js ''{"a":1}''\<close> "JObj [(js ''a'', JNum 1)]"] a b c
    by simp
qed

text \<open>
  C3. The fallback of \<open>sanitizeAndParseJson\<close>. When the first code unit of the sanitized
  text that is not white space is neither \<open>{\<close> nor \<open>[\<close> (or there is none), nothing is
  extracted, and the result is \<open>null\<close> once the strict parse has failed. When the text
  begins, after optional JSON white space, with a well-formed JSON object or array, the
  counter extracts exactly that prefix and the function returns its decoded value, whatever
  follows it. For \<open>{"a":1} some extra commentary here\<close> the strict parse fails, the prefix
  \<open>{"a":1}\<close> is extracted and the object with member \<open>a\<close> equal to 1 is returned.
\<close>

theorem structural_extractor:
  \<open>((case trimStart t of [] \<Rightarrow> True | c # r \<Rightarrow> c \<noteq> 123 \<and> c \<noteq> 91) \<longrightarrow>
      extractBalancedRegion t = None \<and>
      (JSON_parse t = Inl SyntaxError \<longrightarrow> parse_sanitized t = Returns JNull)) \<and>
   (list_all json_ws w \<and> JSON_parse J = Inr v \<and> (hd J = 123 \<or> hd J = 91) \<and>
      \<not> json_ws (last J) \<longrightarrow>
      extractBalancedRegion (w @ J @ rest) = Some (w @ J) \<and>
      parse_sanitized (w @ J @ rest) = Returns v) \<and>
   sanitize (js ''{"a":1} some extra commentary here'') =
     js ''{"a":1} some extra commentary here'' \<and>
   JSON_parse (js ''{"a":1} some extra commentary here'') = Inl SyntaxError \<and>
   extractBalancedRegion (js ''{"a":1} some extra commentary here'') = Some (js ''{"a":1}'') \<and>
   sanitizeAndParseJson (js ''{"a":1} some extra commentary here'') =
     Returns (JObj [(js ''a'', JNum 1)])\<close>
proof (intro conjI impI)
  assume a: "case trimStart t of [] \<Rightarrow> True | c # r \<Rightarrow> c \<noteq> 123 \<and> c \<noteq> 91"
  then show n: "extractBalancedRegion t = None" by (rule extract_not_attempted)
  assume "JSON_parse t = Inl SyntaxError"
  then show "parse_sanitized t = Returns JNull"
    using n by (simp add: parse_sanitized_def)
next
  assume h: "list_all json_ws w \<and> JSON_parse J = Inr v \<and> (hd J = 123 \<or> hd J = 91) \<and>
      \<not> json_ws (last J)"
  then have "J \<noteq> []" by (auto simp: JSON_parse_def)
  then obtain eo J' where J: "J = eo # J'" by (cases J) auto
  then obtain ec where pr: "pair_ok eo ec" using h by (auto simp: pair_ok_def)
  show "extractBalancedRegion (w @ J @ rest) = Some (w @ J)"
    using extract_value [OF pr, of w J' v rest] h J by simp
  show "parse_sanitized (w @ J @ rest) = Returns v"
    using parse_value_prefix [OF pr, of w J' v rest] h J by simp
next
  show \<open>sanitize (js ''{"a":1} some extra commentary here'') =
     js ''{"a":1} some extra commentary here''\<close> by code_simp
  show \<open>JSON_parse (js ''{"a":1} some extra commentary here'') = Inl SyntaxError\<close> by code_simp
  show \<open>extractBalancedRegion (js ''{"a":1} some extra commentary here'') = Some (js ''{"a":1}'')\<close>
    by code_simp
  show \<open>sanitizeAndParseJson (js ''{"a":1} some extra commentary here'') =
     Returns (JObj [(js ''a'', JNum 1)])\<close> by code_simp
qed

theorem structural_extractor_witness:
  \<open>(case trimStart (js ''x {}'') of [] \<Rightarrow> True | c # r \<Rightarrow> c \<noteq> 123 \<and> c \<noteq> 91) \<and>
   JSON_parse (js ''x {}'') = Inl SyntaxError \<and>
   extractBalancedRegion (js ''x {}'') = None \<and>
   parse_sanitized (js ''x {}'') = Returns JNull \<and>
   list_all json_ws (js '' '') \<and>
   JSON_parse (js ''{"a":[1]}'') = Inr (JObj [(js ''a'', JArr [JNum 1])]) \<and>
   hd (js ''{"a":[1]}'') = 123 \<and> \<not> json_ws (last (js ''{"a":[1]}'')) \<and>
   extractBalancedRegion (js '' '' @ js ''{"a":[1]}'' @ js ''} tail'') =
     Some (js '' '' @ js ''{"a":[1]}'') \<and>
   parse_sanitized (js '' '' @ js ''{"a":[1]}'' @ js ''} tail'') =
     Returns (JObj [(js ''a'', JArr [JNum 1])])\<close>
proof -
  have a: \<open>(case trimStart (js ''x {}'') of [] \<Rightarrow> True | c # r \<Rightarrow> c \<noteq> 123 \<and> c \<noteq> 91)\<close>
    by code_simp
  have b: \<open>JSON_parse (js ''x {}'') = Inl SyntaxError\<close> by code_simp
  have c: \<open>list_all json_ws (js '' '')\<close> by code_simp
  have d: \<open>JSON_parse (js ''{"a":[1]}'') = Inr (JObj [(js ''a'', JArr [JNum 1])])\<close> by code_simp
  have e: \<open>hd (js ''{"a":[1]}'') = 123\<close> by code_simp
  have f: \<open>\<not> json_ws (last (js ''{"a":[1]}''))\<close> by code_simp
  show ?thesis
    using structural_extractor [of "js ''x {}''" "js '' ''" \<open>js ''{"a":[1]}''\<close>
        "JObj [(js ''a'', JArr [JNum 1])]" "js ''} tail''"] a b c d e f
    by simp
qed

text \<open>
  C5, as stated, fails in its general part: the line filter can drop a line that holds an
  opening brace, so that a truncated object becomes well-formed. The text below is an object
  without its closing brace; its second line is dropped and a value is returned.
\<close>

theorem truncated_object_counterexample:
  \<open>JSON_parse (js ''{"a":1,"b"\<newline>: {"c"\<newline>: 2}'' @ js ''}'') =
     Inr (JObj [(js ''a'', JNum 1), (js ''b'', JObj [(js ''c'', JNum 2)])]) \<and>
   sanitizeAndParseJson (js ''{"a":1,"b"\<newline>: {"c"\<newline>: 2}'') =
     Returns (JObj [(js ''a'', JNum 1), (js ''b'', JNum 2)])\<close>
  by code_simp

text \<open>
  C5, amended. For the input \<open>{"a": [}\<close> the strict parse of the sanitized text fails, the
  counter extracts the whole text as its balanced region, the parse of that region fails too,
  and \<open>sanitizeAndParseJson\<close> returns \<open>null\<close>. For every truncated JSON object (a
  well-formed JSON object from which a non-empty end, holding at least the closing brace, has
  been cut off), with or without white space in front of it, that contains neither U+2028 nor
  U+2029 and none of whose lines the line filter discards, the strict parse of the sanitized
  text fails, the counter never returns to zero and produces no extraction substring, and
  \<open>sanitizeAndParseJson\<close> returns \<open>null\<close>.
\<close>

theorem truncated_object_absent:
  \<open>JSON_parse (sanitize (js ''{"a": [}'')) = Inl SyntaxError \<and>
   extractBalancedRegion (sanitize (js ''{"a": [}'')) = Some (js ''{"a": [}'') \<and>
   JSON_parse (js ''{"a": [}'') = Inl SyntaxError \<and>
   sanitizeAndParseJson (js ''{"a": [}'') = Returns JNull \<and>
   (list_all json_ws w \<and>
    JSON_parse (T @ u) = Inr v \<and> hd (T @ u) = 123 \<and> u \<noteq> [] \<and> \<not> json_ws (last u) \<and>
    8232 \<notin> set (trim T) \<and> 8233 \<notin> set (trim T) \<and>
    list_all keep_line (split_lines (trim T)) \<longrightarrow>
      JSON_parse (sanitize (w @ T)) = Inl SyntaxError \<and>
      extractBalancedRegion (sanitize (w @ T)) = None \<and>
      sanitizeAndParseJson (w @ T) = Returns JNull)\<close>
proof (intro conjI impI)
  show \<open>JSON_parse (sanitize (js ''{"a": [}'')) = Inl SyntaxError\<close> by code_simp
  show \<open>extractBalancedRegion (sanitize (js ''{"a": [}'')) = Some (js ''{"a": [}'')\<close>
    by code_simp
  show \<open>JSON_parse (js ''{"a": [}'') = Inl SyntaxError\<close> by code_simp
  show \<open>sanitizeAndParseJson (js ''{"a": [}'') = Returns JNull\<close> by code_simp
next
  assume h: "list_all json_ws w \<and>
    JSON_parse (T @ u) = Inr v \<and> hd (T @ u) = 123 \<and> u \<noteq> [] \<and> \<not> json_ws (last u) \<and>
    8232 \<notin> set (trim T) \<and> 8233 \<notin> set (trim T) \<and>
    list_all keep_line (split_lines (trim T))"
  have s: "sanitize (w @ T) = sanitize T"
    using h json_ws_all_space sanitize_leading_spaces by blast
  have r: "JSON_parse (sanitize T) = Inl SyntaxError \<and>
         extractBalancedRegion (sanitize T) = None \<and>
         sanitizeAndParseJson T = Returns JNull"
    using truncated_kept_lines [of T u v] h by blast
  show "JSON_parse (sanitize (w @ T)) = Inl SyntaxError" using r s by simp
  show "extractBalancedRegion (sanitize (w @ T)) = None" using r s by simp
  show "sanitizeAndParseJson (w @ T) = Returns JNull"
    using r s by (simp add: sanitizeAndParseJson_def)
qed

theorem truncated_object_absent_witness:
  \<open>list_all json_ws (js ''\<newline> '') \<and>
   JSON_parse (js ''{\<newline>  "a": {"b": 1},\<newline>\<newline>  "c": "tr'' @ js ''ue"\<newline>}'') =
     Inr (JObj [(js ''a'', JObj [(js ''b'', JNum 1)]), (js ''c'', JStr (js ''true''))]) \<and>
   hd (js ''{\<newline>  "a": {"b": 1},\<newline>\<newline>  "c": "tr'' @ js ''ue"\<newline>}'') = 123 \<and>
   js ''ue"\<newline>}'' \<noteq> [] \<and> \<not> json_ws (last (js ''ue"\<newline>}'')) \<and>
   8232 \<notin> set (trim (js ''{\<newline>  "a": {"b": 1},\<newline>\<newline>  "c": "tr'')) \<and>
   8233 \<notin> set (trim (js ''{\<newline>  "a": {"b": 1},\<newline>\<newline>  "c": "tr'')) \<and>
   list_all keep_line (split_lines (trim (js ''{\<newline>  "a": {"b": 1},\<newline>\<newline>  "c": "tr''))) \<and>
   sanitize (js ''\<newline> '' @ js ''{\<newline>  "a": {"b": 1},\<newline>\<newline>  "c": "tr'') =
     js ''{\<newline>  "a": {"b": 1},\<newline>  "c": "tr'' \<and>
   JSON_parse (sanitize (js ''\<newline> '' @ js ''{\<newline>  "a": {"b": 1},\<newline>\<newline>  "c": "tr'')) = Inl SyntaxError \<and>
   extractBalancedRegion (sanitize (js ''\<newline> '' @ js ''{\<newline>  "a": {"b": 1},\<newline>\<newline>  "c": "tr'')) = None \<and>
   sanitizeAndParseJson (js ''\<newline> '' @ js ''{\<newline>  "a": {"b": 1},\<newline>\<newline>  "c": "tr'') = Returns JNull\<close>
proof -
  have a: \<open>JSON_parse (js ''{\<newline>  "a": {"b": 1},\<newline>\<newline>  "c": "tr'' @ js ''ue"\<newline>}'') =
     Inr (JObj [(js ''a'', JObj [(js ''b'', JNum 1)]), (js ''c'', JStr (js ''true''))])\<close>
    by code_simp
  have b: \<open>hd (js ''{\<newline>  "a": {"b": 1},\<newline>\<newline>  "c": "tr'' @ js ''ue"\<newline>}'') = 123\<close> by code_simp
  have c: \<open>js ''ue"\<newline>}'' \<noteq> []\<close> by code_simp
  have d: \<open>\<not> json_ws (last (js ''ue"\<newline>}''))\<close> by code_simp
  have e: \<open>8232 \<notin> set (trim (js ''{\<newline>  "a": {"b": 1},\<newline>\<newline>  "c": "tr''))\<close> by code_simp
  have f: \<open>8233 \<notin> set (trim (js ''{\<newline>  "a": {"b": 1},\<newline>\<newline>  "c": "tr''))\<close> by code_simp
  have g: \<open>list_all keep_line (split_lines (trim (js ''{\<newline>  "a": {"b": 1},\<newline>\<newline>  "c": "tr'')))\<close>
    by code_simp
  have i: \<open>sanitize (js ''\<newline> '' @ js ''{\<newline>  "a": {"b": 1},\<newline>\<newline>  "c": "tr'') =
     js ''{\<newline>  "a": {"b": 1},\<newline>  "c": "tr''\<close> by code_simp
  have j: \<open>list_all json_ws (js ''\<newline> '')\<close> by code_simp
  show ?thesis
    using truncated_object_absent
      [of \<open>js ''\<newline> ''\<close> \<open>js ''{\<newline>  "a": {"b": 1},\<newline>\<newline>  "c": "tr''\<close> \<open>js ''ue"\<newline>}''\<close>
          "JObj [(js ''a'', JObj [(js ''b'', JNum 1)]), (js ''c'', JStr (js ''true''))]"]
      a b c d e f g i j
    by blast
qed




text \<open>
  C6, as stated, fails: only one enclosing fence is unwrapped per pass, so a text fenced twice
  is changed again by a second pass.
\<close>

theorem nested_fence_counterexample:
  \<open>sanitize (js ''``````{}``````'') = js ''```{}```'' \<and>
   sanitize (sanitize (js ''``````{}``````'')) = js ''{}''\<close>
  by code_simp

text \<open>
  C6, amended. For every input, applying the sanitization stage twice yields the same string
  as applying it once exactly when the second pass finds, in the result of the first, no
  enclosing fence to unwrap and no match of Regex 1 or of Regex 2: the line filter, the
  collapse of blank lines and the trim never change the result of a previous pass. In
  particular the stage is idempotent (1) when the text left after the enclosing fence, if
  any, has been unwrapped is on one line and is not itself a fenced block, and (2) when that
  text is well-formed JSON or the beginning of well-formed JSON, contains neither U+2028 nor
  U+2029, and none of its lines is discarded by the line filter.
\<close>

theorem sanitize_idempotent_cases:
  "((sanitize (sanitize z) = sanitize z) =
      (unwrap_fence (sanitize z) = sanitize z \<and>
       replace_placeholders True (sanitize z) = sanitize z \<and>
       replace_junk_prefixes True (sanitize z) = sanitize z)) \<and>
   (\<not> list_ex is_line_terminator (unwrap_fence (trim x)) \<and>
    unwrap_fence (unwrap_fence (trim x)) = unwrap_fence (trim x) \<longrightarrow>
      sanitize (sanitize x) = sanitize x) \<and>
   (JSON_parse (unwrap_fence (trim y) @ rest) = Inr v \<and>
    8232 \<notin> set (unwrap_fence (trim y)) \<and> 8233 \<notin> set (unwrap_fence (trim y)) \<and>
    list_all keep_line (split_lines (unwrap_fence (trim y))) \<longrightarrow>
      sanitize (sanitize y) = sanitize y)"
proof (intro conjI impI)
  show "(sanitize (sanitize z) = sanitize z) =
      (unwrap_fence (sanitize z) = sanitize z \<and>
       replace_placeholders True (sanitize z) = sanitize z \<and>
       replace_junk_prefixes True (sanitize z) = sanitize z)"
    by (rule second_pass_iff)
next
  assume "\<not> list_ex is_line_terminator (unwrap_fence (trim x)) \<and>
    unwrap_fence (unwrap_fence (trim x)) = unwrap_fence (trim x)"
  then show "sanitize (sanitize x) = sanitize x"
    using sanitize_idem_single_line_content [of x] unfolding list_ex_iff by blast
next
  assume "JSON_parse (unwrap_fence (trim y) @ rest) = Inr v \<and>
    8232 \<notin> set (unwrap_fence (trim y)) \<and> 8233 \<notin> set (unwrap_fence (trim y)) \<and>
    list_all keep_line (split_lines (unwrap_fence (trim y)))"
  then show "sanitize (sanitize y) = sanitize y"
    using sanitize_idem_json_lines [of y rest v] by blast
qed

theorem sanitize_idempotent_cases_witness:
  \<open>sanitize (js ''Here is the JSON:\<newline>{\<newline>  "a": 1\<newline>}\<newline>\<newline>Hope this helps!'') = js ''{\<newline>  "a": 1\<newline>}'' \<and>
   unwrap_fence (sanitize (js ''Here is the JSON:\<newline>{\<newline>  "a": 1\<newline>}\<newline>\<newline>Hope this helps!'')) =
     sanitize (js ''Here is the JSON:\<newline>{\<newline>  "a": 1\<newline>}\<newline>\<newline>Hope this helps!'') \<and>
   replace_placeholders True (sanitize (js ''Here is the JSON:\<newline>{\<newline>  "a": 1\<newline>}\<newline>\<newline>Hope this helps!'')) =
     sanitize (js ''Here is the JSON:\<newline>{\<newline>  "a": 1\<newline>}\<newline>\<newline>Hope this helps!'') \<and>
   replace_junk_prefixes True (sanitize (js ''Here is the JSON:\<newline>{\<newline>  "a": 1\<newline>}\<newline>\<newline>Hope this helps!'')) =
     sanitize (js ''Here is the JSON:\<newline>{\<newline>  "a": 1\<newline>}\<newline>\<newline>Hope this helps!'') \<and>
   sanitize (sanitize (js ''Here is the JSON:\<newline>{\<newline>  "a": 1\<newline>}\<newline>\<newline>Hope this helps!'')) =
     sanitize (js ''Here is the JSON:\<newline>{\<newline>  "a": 1\<newline>}\<newline>\<newline>Hope this helps!'') \<and>
   \<not> list_ex is_line_terminator (unwrap_fence (trim (js ''```json\<newline>{"a":1}\<newline>```''))) \<and>
   unwrap_fence (unwrap_fence (trim (js ''```json\<newline>{"a":1}\<newline>```''))) =
     unwrap_fence (trim (js ''```json\<newline>{"a":1}\<newline>```'')) \<and>
   sanitize (js ''```json\<newline>{"a":1}\<newline>```'') = js ''{"a":1}'' \<and>
   sanitize (sanitize (js ''```json\<newline>{"a":1}\<newline>```'')) = sanitize (js ''```json\<newline>{"a":1}\<newline>```'') \<and>
   JSON_parse (unwrap_fence (trim (js ''```json\<newline>{\<newline>  "a": 1,\<newline>\<newline>  "b": [\<newline>```'')) @ js ''2]}'') =
     Inr (JObj [(js ''a'', JNum 1), (js ''b'', JArr [JNum 2])]) \<and>
   8232 \<notin> set (unwrap_fence (trim (js ''```json\<newline>{\<newline>  "a": 1,\<newline>\<newline>  "b": [\<newline>```''))) \<and>
   8233 \<notin> set (unwrap_fence (trim (js ''```json\<newline>{\<newline>  "a": 1,\<newline>\<newline>  "b": [\<newline>```''))) \<and>
   list_all keep_line
     (split_lines (unwrap_fence (trim (js ''```json\<newline>{\<newline>  "a": 1,\<newline>\<newline>  "b": [\<newline>```'')))) \<and>
   sanitize (js ''```json\<newline>{\<newline>  "a": 1,\<newline>\<newline>  "b": [\<newline>```'') = js ''{\<newline>  "a": 1,\<newline>  "b": ['' \<and>
   sanitize (sanitize (js ''```json\<newline>{\<newline>  "a": 1,\<newline>\<newline>  "b": [\<newline>```'')) =
     sanitize (js ''```json\<newline>{\<newline>  "a": 1,\<newline>\<newline>  "b": [\<newline>```'')\<close>
proof -
  have a1: \<open>\<not> list_ex is_line_terminator (unwrap_fence (trim (js ''```json\<newline>{"a":1}\<newline>```'')))\<close>
    by code_simp
  have a2: \<open>unwrap_fence (unwrap_fence (trim (js ''```json\<newline>{"a":1}\<newline>```''))) =
     unwrap_fence (trim (js ''```json\<newline>{"a":1}\<newline>```''))\<close> by code_simp
  have a3: \<open>sanitize (js ''```json\<newline>{"a":1}\<newline>```'') = js ''{"a":1}''\<close> by code_simp
  have b1: \<open>JSON_parse (unwrap_fence (trim (js ''```json\<newline>{\<newline>  "a": 1,\<newline>\<newline>  "b": [\<newline>```'')) @ js ''2]}'') =
     Inr (JObj [(js ''a'', JNum 1), (js ''b'', JArr [JNum 2])])\<close> by code_simp
  have b2: \<open>8232 \<notin> set (unwrap_fence (trim (js ''```json\<newline>{\<newline>  "a": 1,\<newline>\<newline>  "b": [\<newline>```'')))\<close>
    by code_simp
  have b3: \<open>8233 \<notin> set (unwrap_fence (trim (js ''```json\<newline>{\<newline>  "a": 1,\<newline>\<newline>  "b": [\<newline>```'')))\<close>
    by code_simp
  have b4: \<open>list_all keep_line
     (split_lines (unwrap_fence (trim (js ''```json\<newline>{\<newline>  "a": 1,\<newline>\<newline>  "b": [\<newline>```''))))\<close>
    by code_simp
  have b5: \<open>sanitize (js ''```json\<newline>{\<newline>  "a": 1,\<newline>\<newline>  "b": [\<newline>```'') = js ''{\<newline>  "a": 1,\<newline>  "b": [''\<close>
    by code_simp
  have c0: \<open>sanitize (js ''Here is the JSON:\<newline>{\<newline>  "a": 1\<newline>}\<newline>\<newline>Hope this helps!'') = js ''{\<newline>  "a": 1\<newline>}''\<close>
    by code_simp
  have c1: \<open>unwrap_fence (js ''{\<newline>  "a": 1\<newline>}'') = js ''{\<newline>  "a": 1\<newline>}''\<close> by code_simp
  have c2: \<open>replace_placeholders True (js ''{\<newline>  "a": 1\<newline>}'') = js ''{\<newline>  "a": 1\<newline>}''\<close> by code_simp
  have c3: \<open>replace_junk_prefixes True (js ''{\<newline>  "a": 1\<newline>}'') = js ''{\<newline>  "a": 1\<newline>}''\<close> by code_simp
  show ?thesis
    using sanitize_idempotent_cases
      [of \<open>js ''Here is the JSON:\<newline>{\<newline>  "a": 1\<newline>}\<newline>\<newline>Hope this helps!''\<close>
          \<open>js ''```json\<newline>{"a":1}\<newline>```''\<close>
          \<open>js ''```json\<newline>{\<newline>  "a": 1,\<newline>\<newline>  "b": [\<newline>```''\<close> \<open>js ''2]}''\<close>
          "JObj [(js ''a'', JNum 1), (js ''b'', JArr [JNum 2])]"]
      a1 a2 a3 b1 b2 b3 b4 b5 c1 c2 c3
    unfolding c0 by blast
qed

text \<open>
  C9, as stated, fails: a fence marker inside the text is kept. Only a fence that encloses
  the whole trimmed string is unwrapped.
\<close>

theorem embedded_fence_counterexample:
  \<open>sanitize (js ''{"a":"```"}'') = js ''{"a":"```"}'' \<and>
   includes_str fence (js ''{"a":"```"}'')\<close>
  by code_simp

text \<open>
  C9, amended. The sanitized text contains no fence marker whenever the trimmed input contains
  none, and whenever the trimmed input is one fenced block (an opening and a closing marker
  around a text that contains no marker and, after its language tag, is not blank): the stage
  removes the enclosing pair of markers and creates no marker.
\<close>

theorem sanitized_fence_free:
  "(no_fence (trim x) \<longrightarrow> no_fence (sanitize x)) \<and>
   (trim x = fence @ m @ fence \<and> no_fence m \<and>
    dropWhile is_space (dropWhile is_word m) \<noteq> [] \<longrightarrow> no_fence (sanitize x))"
proof (intro conjI impI)
  assume "no_fence (trim x)"
  then show "no_fence (sanitize x)"
    by (simp add: sanitize_def unwrap_fence_no_fence_text sanitize_lines_no_fence)
next
  assume h: "trim x = fence @ m @ fence \<and> no_fence m \<and>
    dropWhile is_space (dropWhile is_word m) \<noteq> []"
  then have "trimEnd (dropWhile is_space (dropWhile is_word m)) \<noteq> []"
    using group2_nonempty by blast
  then have "no_fence (unwrap_fence (fence @ m @ fence))"
    using unwrap_fence_wrapped_no_fence [of m] h by blast
  then show "no_fence (sanitize x)"
    using h by (simp add: sanitize_def sanitize_lines_no_fence)
qed

theorem sanitized_fence_free_witness:
  \<open>no_fence (trim (js '' a ` b `` c '')) \<and> no_fence (sanitize (js '' a ` b `` c '')) \<and>
   trim (js ''```json\<newline>{"a":"`"}\<newline>``` '') = fence @ js ''json\<newline>{"a":"`"}\<newline>'' @ fence \<and>
   no_fence (js ''json\<newline>{"a":"`"}\<newline>'') \<and>
   dropWhile is_space (dropWhile is_word (js ''json\<newline>{"a":"`"}\<newline>'')) \<noteq> [] \<and>
   no_fence (sanitize (js ''```json\<newline>{"a":"`"}\<newline>``` ''))\<close>
proof -
  have a: \<open>no_fence (trim (js '' a ` b `` c ''))\<close> by code_simp
  have b: \<open>trim (js ''```json\<newline>{"a":"`"}\<newline>``` '') = fence @ js ''json\<newline>{"a":"`"}\<newline>'' @ fence\<close>
    by code_simp
  have c: \<open>no_fence (js ''json\<newline>{"a":"`"}\<newline>'')\<close> by code_simp
  have d: \<open>dropWhile is_space (dropWhile is_word (js ''json\<newline>{"a":"`"}\<newline>'')) \<noteq> []\<close>
    by code_simp
  show ?thesis
    using sanitized_fence_free [of \<open>js '' a ` b `` c ''\<close>]
      sanitized_fence_free [of \<open>js ''```json\<newline>{"a":"`"}\<newline>``` ''\<close> \<open>js ''json\<newline>{"a":"`"}\<newline>''\<close>]
      a b c d
    by blast
qed

end
